theory Spec2Isabelle
  imports Complex_Main "HOL-Library.Log_Nat" "HOL-Library.Word"
begin

section \<open>JavaScript numbers\<close>

text \<open>
  Every number of the scripts is an IEEE 754 binary64 value.  A finite double is modelled
  by the rational it denotes, and each arithmetic operation is the exact operation
  followed by rounding to the nearest double, ties to even (\<open>fl\<close>).  Overflow and
  subnormal numbers do not occur for the magnitudes of canvas coordinates and are not
  modelled.  \<open>NaN\<close> and \<open>undefined\<close> are \<open>None\<close> where the code can produce them.
\<close>

definition ilog2 :: "rat \<Rightarrow> int" where
  \<comment> \<open>the binary exponent: \<open>2 powi (ilog2 x) \<le> \<bar>x\<bar> < 2 powi (ilog2 x + 1)\<close> for \<open>x \<noteq> 0\<close>\<close>
  "ilog2 x = (let (p, q) = quotient_of \<bar>x\<bar>; d = bitlen p - bitlen q
              in if 2 powi d \<le> \<bar>x\<bar> then d else d - 1)"

definition rhe :: "rat \<Rightarrow> int" where
  \<comment> \<open>round to the nearest integer, ties to the even one\<close>
  "rhe x = (let f = \<lfloor>x\<rfloor>; d = x - of_int f
            in if d < 1/2 then f else if 1/2 < d then f + 1
               else if even f then f else f + 1)"

definition fl :: "rat \<Rightarrow> rat" where
  \<comment> \<open>round to 53 significant bits\<close>
  "fl x = (if x = 0 then 0
           else let u = 2 powi (ilog2 x - 52) in of_int (rhe (x / u)) * u)"

definition jsadd :: "rat \<Rightarrow> rat \<Rightarrow> rat" where
  "jsadd a b = fl (a + b)"

definition jssub :: "rat \<Rightarrow> rat \<Rightarrow> rat" where
  "jssub a b = fl (a - b)"

definition jsmul :: "rat \<Rightarrow> rat \<Rightarrow> rat" where
  "jsmul a b = fl (a * b)"

definition jsdiv :: "rat \<Rightarrow> rat \<Rightarrow> rat" where
  \<comment> \<open>only used with a non-zero divisor\<close>
  "jsdiv a b = fl (a / b)"

fun isqrt_bits :: "nat \<Rightarrow> int \<Rightarrow> int \<Rightarrow> int" where
  "isqrt_bits 0 t r = (if (r + 1) * (r + 1) \<le> t then r + 1 else r)"
| "isqrt_bits (Suc b) t r =
     isqrt_bits b t (if (r + 2 ^ Suc b) * (r + 2 ^ Suc b) \<le> t then r + 2 ^ Suc b else r)"

definition jssqrt :: "rat \<Rightarrow> rat" where
  \<comment> \<open>\<open>Math.sqrt\<close> on a non-negative double: the correctly rounded square root.  With
      \<open>u\<close> the unit in the last place of the root and \<open>n = \<lfloor>sqrt (x / u\<^sup>2)\<rfloor>\<close>, the root is
      rounded up iff \<open>x / u\<^sup>2\<close> exceeds \<open>(n + 1/2)\<^sup>2\<close>.\<close>
  "jssqrt x = (if x \<le> 0 then 0
     else let k = ilog2 x div 2; u = 2 powi (k - 52); t = x / (u * u);
              n = isqrt_bits 53 \<lfloor>t\<rfloor> 0; h = of_int (n * n + n) + 1/4
          in of_int (if t < h then n else if h < t then n + 1
                     else if even n then n else n + 1) * u)"

definition jsround :: "rat \<Rightarrow> int" where
  \<comment> \<open>\<open>Math.round\<close>: nearest integer, ties towards \<open>+\<infinity>\<close>\<close>
  "jsround x = \<lfloor>x + 1/2\<rfloor>"

definition clamp :: "rat \<Rightarrow> rat \<Rightarrow> rat \<Rightarrow> rat" where
  "clamp n lo hi = max lo (min hi n)"

section \<open>Pixel buffers\<close>

text \<open>
  \<open>ImageData.data\<close> is a \<open>Uint8ClampedArray\<close>.  Reading it at a key that is not an
  integer inside the array yields \<open>undefined\<close>; writing at such a key does nothing.  A
  stored number is converted by \<open>ToUint8Clamp\<close>: clamped to \<open>[0, 255]\<close> and rounded to the
  nearest integer, ties to even; \<open>NaN\<close> is stored as 0.
\<close>

type_synonym byte = "8 word"

definition valid_index :: "byte list \<Rightarrow> rat \<Rightarrow> bool" where
  "valid_index d i \<longleftrightarrow> of_int \<lfloor>i\<rfloor> = i \<and> 0 \<le> i \<and> i < of_nat (length d)"

definition ta_get :: "byte list \<Rightarrow> rat \<Rightarrow> rat option" where
  "ta_get d i = (if valid_index d i then Some (of_nat (unat (d ! nat \<lfloor>i\<rfloor>))) else None)"

definition toUint8Clamp :: "rat option \<Rightarrow> byte" where
  "toUint8Clamp v =
     (case v of None \<Rightarrow> 0
      | Some q \<Rightarrow> if q \<le> 0 then 0 else if 255 \<le> q then 255 else of_int (rhe q))"

definition ta_set :: "byte list \<Rightarrow> rat \<Rightarrow> rat option \<Rightarrow> byte list" where
  "ta_set d i v = (if valid_index d i then d[nat \<lfloor>i\<rfloor> := toUint8Clamp v] else d)"

definition nan_add :: "rat option \<Rightarrow> rat option \<Rightarrow> rat option" where
  \<comment> \<open>\<open>a + b\<close> where either may be \<open>NaN\<close> or \<open>undefined\<close>\<close>
  "nan_add a b =
     (case a of None \<Rightarrow> None
      | Some x \<Rightarrow> (case b of None \<Rightarrow> None | Some y \<Rightarrow> Some (jsadd x y)))"

definition nan_div :: "rat option \<Rightarrow> rat \<Rightarrow> rat option" where
  "nan_div a c = (case a of None \<Rightarrow> None | Some x \<Rightarrow> Some (jsdiv x c))"

section \<open>The region filler (lnwremove/script.js, removeWatermark)\<close>

record acc =
  accR :: "rat option"
  accG :: "rat option"
  accB :: "rat option"
  accCount :: rat

definition sample_one :: "rat \<Rightarrow> rat \<Rightarrow> byte list \<Rightarrow> rat \<Rightarrow> rat \<Rightarrow> acc \<Rightarrow> acc" where
  \<comment> \<open>the body of the two neighbourhood loops, for the neighbour \<open>(nx, ny)\<close>\<close>
  "sample_one W startY d ny nx a =
     (if 0 \<le> ny \<and> ny < startY \<and> 0 \<le> nx \<and> nx < W
      then let nIdx = jsmul (jsadd (jsmul ny W) nx) 4
           in \<lparr> accR = nan_add (accR a) (ta_get d nIdx),
                accG = nan_add (accG a) (ta_get d (jsadd nIdx 1)),
                accB = nan_add (accB a) (ta_get d (jsadd nIdx 2)),
                accCount = jsadd (accCount a) 1 \<rparr>
      else a)"

definition sample :: "rat \<Rightarrow> rat \<Rightarrow> byte list \<Rightarrow> rat \<Rightarrow> rat \<Rightarrow> acc" where
  \<comment> \<open>\<open>for dy = -1..1\<close>, \<open>for dx = -1..1\<close>\<close>
  "sample W startY d sampleY x =
     fold (\<lambda>dy a. fold (\<lambda>dx. sample_one W startY d (jsadd sampleY dy) (jsadd x dx))
                        [-1, 0, 1] a)
          [-1, 0, 1] \<lparr> accR = Some 0, accG = Some 0, accB = Some 0, accCount = 0 \<rparr>"

definition fill_pixel :: "rat \<Rightarrow> rat \<Rightarrow> rat \<Rightarrow> rat \<Rightarrow> byte list \<Rightarrow> byte list" where
  \<comment> \<open>the body of the loop over \<open>x\<close>\<close>
  "fill_pixel W startY y x d =
     (let idx = jsmul (jsadd (jsmul y W) x) 4;
          sampleY = max 0 (jssub (jssub startY (jssub y startY)) 1)
      in if 0 \<le> sampleY
         then let a = sample W startY d sampleY x
              in if 0 < accCount a
                 then let d1 = ta_set d idx (nan_div (accR a) (accCount a));
                          d2 = ta_set d1 (jsadd idx 1) (nan_div (accG a) (accCount a));
                          d3 = ta_set d2 (jsadd idx 2) (nan_div (accB a) (accCount a))
                      in ta_set d3 (jsadd idx 3) (Some 255)
                 else d
         else d)"

partial_function (option) loop_x ::
  "rat \<Rightarrow> rat \<Rightarrow> rat \<Rightarrow> rat \<Rightarrow> byte list \<Rightarrow> byte list option" where
  "loop_x W startY y x d =
     (if x < W then loop_x W startY y (jsadd x 1) (fill_pixel W startY y x d) else Some d)"

declare loop_x.simps [code]

partial_function (option) loop_y ::
  "rat \<Rightarrow> rat \<Rightarrow> rat \<Rightarrow> rat \<Rightarrow> rat \<Rightarrow> byte list \<Rightarrow> byte list option" where
  "loop_y W H startX startY y d =
     (if y < H
      then Option.bind (loop_x W startY y startX d)
             (\<lambda>d'. loop_y W H startX startY (jsadd y 1) d')
      else Some d)"

declare loop_y.simps [code]

definition watermarkHeight :: "nat \<Rightarrow> rat" where
  "watermarkHeight h = min 100 (jsmul (of_nat h) (fl (15 / 100)))"

definition watermarkWidth :: "nat \<Rightarrow> rat" where
  "watermarkWidth w = min 150 (jsmul (of_nat w) (fl (25 / 100)))"

definition startX :: "nat \<Rightarrow> rat" where
  "startX w = jssub (of_nat w) (watermarkWidth w)"

definition startY :: "nat \<Rightarrow> rat" where
  "startY h = jssub (of_nat h) (watermarkHeight h)"

definition fillRegion :: "nat \<Rightarrow> nat \<Rightarrow> byte list \<Rightarrow> byte list option" where
  \<comment> \<open>the two loops over the region, on the data of a \<open>w \<times> h\<close> image; \<open>None\<close> if they do not end\<close>
  "fillRegion w h d = loop_y (of_nat w) (of_nat h) (startX w) (startY h) (startY h) d"

section \<open>The inpainting adapter (airemove/script.ts)\<close>

text \<open>
  The adapter works on three canvases, the page state and the OpenCV.js object \<open>cv\<close> that
  it receives as a parameter.  Values thrown by the library or the platform are values of
  type \<open>exn\<close>; a fallible call returns \<open>exn + result\<close>.
\<close>

datatype exn = Error string

record canvas =
  width :: nat
  height :: nat
  ctx2d :: bool
  pixels :: "byte list"

record imageData =
  idWidth :: nat
  idHeight :: nat
  idData :: "byte list"

definition getImageData :: "canvas \<Rightarrow> exn + imageData" where
  \<comment> \<open>\<open>ctx.getImageData(0, 0, canvas.width, canvas.height)\<close>; a zero extent raises IndexSizeError\<close>
  "getImageData c =
     (if width c = 0 \<or> height c = 0 then Inl (Error ''IndexSizeError'')
      else Inr \<lparr> idWidth = width c, idHeight = height c, idData = pixels c \<rparr>)"

datatype mat = Mat (rows: nat) (cols: nat) (channels: nat) (matData: "byte list")

datatype color_code = COLOR_RGBA2RGB | COLOR_RGBA2GRAY

datatype thresh_type = THRESH_BINARY

datatype inpaint_flag = INPAINT_TELEA

text \<open>The members of \<open>CvLike\<close> that \<open>inpaintToCanvas\<close> calls.  Each one may throw.\<close>

record cvLike =
  matFromImageData :: "imageData \<Rightarrow> exn + mat"
  cvtColor :: "mat \<Rightarrow> color_code \<Rightarrow> exn + mat"
  threshold :: "mat \<Rightarrow> rat \<Rightarrow> rat \<Rightarrow> thresh_type \<Rightarrow> exn + mat"
  inpaint :: "mat \<Rightarrow> mat \<Rightarrow> rat \<Rightarrow> inpaint_flag \<Rightarrow> exn + mat"
  imshow :: "canvas \<Rightarrow> mat \<Rightarrow> exn + canvas"

text \<open>
  A \<open>cv.Mat\<close> owns native memory until \<open>delete()\<close> is called on it.  The native heap is
  the list of handles that are allocated and not yet deleted, with a counter for fresh
  handles.
\<close>

record heap =
  nextHandle :: nat
  live :: "nat list"

definition alloc :: "heap \<Rightarrow> nat \<times> heap" where
  "alloc h = (nextHandle h, \<lparr> nextHandle = Suc (nextHandle h), live = live h @ [nextHandle h] \<rparr>)"

definition delete :: "nat \<Rightarrow> heap \<Rightarrow> heap" where
  "delete i h = h \<lparr> live := removeAll i (live h) \<rparr>"

definition inpaintToCanvas ::
  "cvLike \<Rightarrow> canvas \<Rightarrow> canvas \<Rightarrow> canvas \<Rightarrow> rat \<Rightarrow> heap \<Rightarrow> (exn + canvas) \<times> heap" where
  "inpaintToCanvas cv imgCanvas maskCanvas outCanvas radius h0 =
    (if \<not> ctx2d imgCanvas \<or> \<not> ctx2d maskCanvas
     then (Inl (Error ''Missing canvas context''), h0)
     else case getImageData imgCanvas of Inl e \<Rightarrow> (Inl e, h0) | Inr imgData \<Rightarrow>
      (case getImageData maskCanvas of Inl e \<Rightarrow> (Inl e, h0) | Inr maskData \<Rightarrow>
      (case matFromImageData cv imgData of Inl e \<Rightarrow> (Inl e, h0) | Inr srcRgba \<Rightarrow>
       let (hSrcRgba, h1) = alloc h0;
           (hSrcRgb, h2) = alloc h1
       in (case cvtColor cv srcRgba COLOR_RGBA2RGB of Inl e \<Rightarrow> (Inl e, h2) | Inr srcRgb \<Rightarrow>
      (case matFromImageData cv maskData of Inl e \<Rightarrow> (Inl e, h2) | Inr maskRgba \<Rightarrow>
       let (hMaskRgba, h3) = alloc h2;
           (hMaskGray, h4) = alloc h3
       in (case cvtColor cv maskRgba COLOR_RGBA2GRAY of Inl e \<Rightarrow> (Inl e, h4) | Inr maskGray \<Rightarrow>
       let (hMaskBin, h5) = alloc h4
       in (case threshold cv maskGray 1 255 THRESH_BINARY of Inl e \<Rightarrow> (Inl e, h5) | Inr maskBin \<Rightarrow>
       let (hDst, h6) = alloc h5;
           safeRadius = clamp radius 1 30
       in (case inpaint cv srcRgb maskBin safeRadius INPAINT_TELEA of Inl e \<Rightarrow> (Inl e, h6) | Inr dst \<Rightarrow>
      (case imshow cv outCanvas dst of Inl e \<Rightarrow> (Inl e, h6) | Inr out \<Rightarrow>
       (Inr out,
        delete hDst (delete hMaskBin (delete hMaskGray (delete hMaskRgba
          (delete hSrcRgb (delete hSrcRgba h6)))))))))))))))"

record point =
  ptX :: rat
  ptY :: rat

record htmlImage =
  naturalWidth :: nat
  naturalHeight :: nat
  bitmap :: "byte list"

text \<open>
  The browser's rasterisers are parameters: how a decoded image is resampled by
  \<open>drawImage(img, 0, 0, w, h)\<close> and which pixels \<open>arc\<close> followed by \<open>fill\<close> covers.
  Both return the new pixel array of the canvas and cannot change its size.
\<close>

record browser =
  drawScaled :: "htmlImage \<Rightarrow> nat \<Rightarrow> nat \<Rightarrow> byte list"
  fillArc :: "canvas \<Rightarrow> point \<Rightarrow> rat \<Rightarrow> byte list"

definition setSize :: "canvas \<Rightarrow> nat \<Rightarrow> nat \<Rightarrow> canvas" where
  \<comment> \<open>\<open>canvas.width = w; canvas.height = h\<close>: the bitmap is reset to transparent black\<close>
  "setSize c w h = c \<lparr> width := w, height := h, pixels := replicate (4 * w * h) 0 \<rparr>"

definition clearAll :: "canvas \<Rightarrow> canvas" where
  \<comment> \<open>\<open>ctx.clearRect(0, 0, canvas.width, canvas.height)\<close>\<close>
  "clearAll c = c \<lparr> pixels := replicate (4 * width c * height c) 0 \<rparr>"

definition clearMask :: "canvas \<Rightarrow> canvas" where
  "clearMask maskCanvas = clearAll maskCanvas"

definition drawBrush :: "browser \<Rightarrow> canvas \<Rightarrow> point \<Rightarrow> rat \<Rightarrow> canvas" where
  "drawBrush br c p brushSize = c \<lparr> pixels := fillArc br c p (jsdiv brushSize 2) \<rparr>"

definition lineDist :: "point \<Rightarrow> point \<Rightarrow> rat" where
  \<comment> \<open>the constant \<open>dist\<close> of \<open>drawLine\<close>\<close>
  "lineDist a b =
     (let dx = jssub (ptX b) (ptX a);
          dy = jssub (ptY b) (ptY a)
      in jssqrt (jsadd (jsmul dx dx) (jsmul dy dy)))"

definition lineSteps :: "point \<Rightarrow> point \<Rightarrow> rat \<Rightarrow> int" where
  \<comment> \<open>the constant \<open>steps\<close> of \<open>drawLine\<close>\<close>
  "lineSteps a b brushSize =
     (let step = max 1 (jsdiv brushSize 3)
      in \<lceil>jsdiv (lineDist a b) step\<rceil>)"

definition linePoint :: "point \<Rightarrow> point \<Rightarrow> int \<Rightarrow> rat \<Rightarrow> point" where
  \<comment> \<open>the centre of the stamp of iteration \<open>i\<close>\<close>
  "linePoint a b steps i =
     (let dx = jssub (ptX b) (ptX a);
          dy = jssub (ptY b) (ptY a);
          t = (if steps = 0 then 0 else jsdiv i (of_int steps))
      in \<lparr> ptX = jsadd (ptX a) (jsmul dx t), ptY = jsadd (ptY a) (jsmul dy t) \<rparr>)"

partial_function (option) lineLoop ::
  "point \<Rightarrow> point \<Rightarrow> int \<Rightarrow> rat \<Rightarrow> point list \<Rightarrow> point list option" where
  "lineLoop a b steps i stamps =
     (if i \<le> of_int steps
      then lineLoop a b steps (jsadd i 1) (stamps @ [linePoint a b steps i])
      else Some stamps)"

declare lineLoop.simps [code]

definition lineStamps :: "point \<Rightarrow> point \<Rightarrow> rat \<Rightarrow> point list option" where
  \<comment> \<open>the centres that \<open>drawLine\<close> stamps, in order; \<open>None\<close> if the loop does not end\<close>
  "lineStamps a b brushSize = lineLoop a b (lineSteps a b brushSize) 0 []"

definition drawLine :: "browser \<Rightarrow> canvas \<Rightarrow> point \<Rightarrow> point \<Rightarrow> rat \<Rightarrow> canvas option" where
  "drawLine br c a b brushSize =
     (case lineStamps a b brushSize of None \<Rightarrow> None
      | Some stamps \<Rightarrow> Some (fold (\<lambda>p c'. drawBrush br c' p brushSize) stamps c))"

definition renderScale :: "htmlImage \<Rightarrow> rat" where
  \<comment> \<open>\<open>Math.min(maxW / naturalWidth, maxH / naturalHeight, 1)\<close>; a quotient by zero is
      \<open>+Infinity\<close> and drops out of the minimum\<close>
  "renderScale im =
     min (if naturalWidth im = 0 then 1 else min 1 (jsdiv 960 (of_nat (naturalWidth im))))
         (if naturalHeight im = 0 then 1 else min 1 (jsdiv 640 (of_nat (naturalHeight im))))"

definition renderW :: "htmlImage \<Rightarrow> nat" where
  "renderW im = nat (max 1 (jsround (jsmul (of_nat (naturalWidth im)) (renderScale im))))"

definition renderH :: "htmlImage \<Rightarrow> nat" where
  "renderH im = nat (max 1 (jsround (jsmul (of_nat (naturalHeight im)) (renderScale im))))"

definition renderImage :: "browser \<Rightarrow> canvas \<Rightarrow> canvas \<Rightarrow> htmlImage \<Rightarrow> canvas \<times> canvas \<times> nat \<times> nat" where
  "renderImage br imgCanvas maskCanvas im =
     (let w = renderW im; h = renderH im;
          imgCanvas1 = setSize imgCanvas w h;
          maskCanvas1 = setSize maskCanvas w h;
          imgCanvas2 = (clearAll imgCanvas1) \<lparr> pixels := drawScaled br im w h \<rparr>
      in (imgCanvas2, clearMask maskCanvas1, w, h))"

definition drawCanvas :: "canvas \<Rightarrow> canvas \<Rightarrow> exn + canvas" where
  \<comment> \<open>\<open>dstCtx.drawImage(src, 0, 0)\<close> on a cleared destination: the source is copied, clipped
      to the destination; a source without area raises InvalidStateError\<close>
  "drawCanvas dst src =
     (if width src = 0 \<or> height src = 0 then Inl (Error ''InvalidStateError'')
      else Inr (dst \<lparr> pixels := concat (map (\<lambda>i.
              let x = (i div 4) mod width dst; y = (i div 4) div width dst
              in [if x < width src \<and> y < height src
                  then pixels src ! (4 * (y * width src + x) + i mod 4) else 0])
            [0 ..< 4 * width dst * height dst]) \<rparr>))"

definition opencvThreshold :: "mat \<Rightarrow> rat \<Rightarrow> rat \<Rightarrow> thresh_type \<Rightarrow> exn + mat" where
  \<comment> \<open>\<open>cv.threshold\<close> of OpenCV on 8-bit data, as the library documents \<open>THRESH_BINARY\<close>:
      \<open>dst = maxval\<close> where \<open>src > thresh\<close> and \<open>0\<close> elsewhere, the cutoff rounded down and
      the maximum saturated to a byte.  OpenCV.js is loaded by the page; it is not a file
      of the repository.\<close>
  "opencvThreshold src thresh maxval ty =
     (case ty of THRESH_BINARY \<Rightarrow>
        Inr (Mat (rows src) (cols src) (channels src)
               (map (\<lambda>v. if \<lfloor>thresh\<rfloor> < int (unat v) then toUint8Clamp (Some maxval) else 0)
                    (matData src))))"

datatype status =
  StatusInitial | StatusCvReady | StatusCvLoadFailed | StatusImageReady
  | StatusMaskCleared | StatusCvNotReady | StatusWorking | StatusDone | StatusFailed

datatype cv_global = CvUndefined | CvWithoutMat | CvReady cvLike

definition isCvReady :: "cv_global \<Rightarrow> bool" where
  \<comment> \<open>\<open>!!(window.cv && window.cv.Mat)\<close>\<close>
  "isCvReady g = (case g of CvReady cv \<Rightarrow> True | _ \<Rightarrow> False)"

record app =
  img :: "htmlImage option"
  imgWidth :: nat
  imgHeight :: nat
  drawing :: bool
  brush :: rat
  radius :: rat
  lastPoint :: "point option"
  imgCanvas :: canvas
  maskCanvas :: canvas
  outCanvas :: canvas
  statusText :: status
  brushSizeValue :: rat
  inpaintRadiusValue :: rat
  btnRemoveDisabled :: bool
  btnClearDisabled :: bool
  btnDownloadDisabled :: bool
  windowCv :: cv_global
  cvHeap :: heap

definition syncControls :: "app \<Rightarrow> app" where
  "syncControls s =
     (let canWork = (img s \<noteq> None \<and> 0 < width (imgCanvas s) \<and> 0 < height (imgCanvas s));
          canDownload = (canWork \<and> 0 < width (outCanvas s) \<and> 0 < height (outCanvas s))
      in s \<lparr> brush := brushSizeValue s, radius := inpaintRadiusValue s,
              btnRemoveDisabled := \<not> canWork, btnClearDisabled := \<not> canWork,
              btnDownloadDisabled := \<not> canDownload \<rparr>)"

definition loadImageFromFile :: "browser \<Rightarrow> htmlImage option \<Rightarrow> app \<Rightarrow> app" where
  \<comment> \<open>the argument is the decoded image, \<open>None\<close> when decoding fails and the promise rejects\<close>
  "loadImageFromFile br decoded s =
     (case decoded of None \<Rightarrow> s
      | Some im \<Rightarrow>
         (case renderImage br (imgCanvas s) (maskCanvas s) im of
            (imgCanvas1, maskCanvas1, w, h) \<Rightarrow>
              syncControls (s \<lparr> img := Some im, imgCanvas := imgCanvas1, maskCanvas := maskCanvas1,
                                imgWidth := w, imgHeight := h,
                                outCanvas := clearAll (setSize (outCanvas s) w h),
                                statusText := StatusImageReady \<rparr>)))"

definition pointerDown :: "browser \<Rightarrow> point \<Rightarrow> app \<Rightarrow> app" where
  "pointerDown br p s =
     (if img s = None then s
      else s \<lparr> drawing := True, lastPoint := Some p,
               maskCanvas := drawBrush br (maskCanvas s) p (brush s) \<rparr>)"

definition pointerMove :: "browser \<Rightarrow> point \<Rightarrow> bool \<Rightarrow> app \<Rightarrow> app option" where
  \<comment> \<open>\<open>None\<close> if the loop of \<open>drawLine\<close> does not end\<close>
  "pointerMove br p shiftKey s =
     (if \<not> drawing s \<or> img s = None then Some s
      else case (if shiftKey then lastPoint s else None) of
             Some lastP \<Rightarrow>
               (case drawLine br (maskCanvas s) lastP p (brush s) of None \<Rightarrow> None
                | Some m \<Rightarrow> Some (s \<lparr> maskCanvas := m, lastPoint := Some p \<rparr>))
           | None \<Rightarrow>
               Some (s \<lparr> maskCanvas := drawBrush br (maskCanvas s) p (brush s),
                         lastPoint := Some p \<rparr>))"

definition pointerUp :: "app \<Rightarrow> app" where
  "pointerUp s = s \<lparr> drawing := False, lastPoint := None \<rparr>"

definition btnClearClick :: "app \<Rightarrow> app" where
  "btnClearClick s =
     (if img s = None then s
      else s \<lparr> maskCanvas := clearMask (maskCanvas s), statusText := StatusMaskCleared \<rparr>)"

definition btnRemoveClick :: "app \<Rightarrow> app" where
  "btnRemoveClick s =
     (if img s = None then s
      else case windowCv s of
        CvUndefined \<Rightarrow> s \<lparr> statusText := StatusCvNotReady \<rparr>
      | CvWithoutMat \<Rightarrow> s \<lparr> statusText := StatusCvNotReady \<rparr>
      | CvReady cv \<Rightarrow>
          (let s1 = s \<lparr> btnRemoveDisabled := True, statusText := StatusWorking \<rparr>;
               s2 = (case inpaintToCanvas cv (imgCanvas s1) (maskCanvas s1) (outCanvas s1)
                            (radius s1) (cvHeap s1) of
                       (Inl e, h) \<Rightarrow> s1 \<lparr> cvHeap := h, statusText := StatusFailed \<rparr>
                     | (Inr out, h) \<Rightarrow>
                         (case drawCanvas (clearAll (imgCanvas s1)) out of
                            Inl e \<Rightarrow> s1 \<lparr> cvHeap := h, outCanvas := out,
                                           imgCanvas := clearAll (imgCanvas s1),
                                           statusText := StatusFailed \<rparr>
                          | Inr c \<Rightarrow> s1 \<lparr> cvHeap := h, outCanvas := out, imgCanvas := c,
                                           statusText := StatusDone \<rparr>))
           in syncControls (s2 \<lparr> btnRemoveDisabled := False \<rparr>)))"

datatype event =
  FileChosen "htmlImage option"
  | PointerDown point
  | PointerMove point bool
  | PointerUp
  | KeyEscape
  | ControlInput rat rat
  | ClearClick
  | RemoveClick
  | CvScript cv_global
  | CvWaitOver bool

definition step :: "browser \<Rightarrow> event \<Rightarrow> app \<Rightarrow> app option" where
  \<comment> \<open>one event handler run to completion; a disabled button dispatches no click\<close>
  "step br ev s =
     (case ev of
        FileChosen decoded \<Rightarrow> Some (loadImageFromFile br decoded s)
      | PointerDown p \<Rightarrow> Some (pointerDown br p s)
      | PointerMove p shiftKey \<Rightarrow> pointerMove br p shiftKey s
      | PointerUp \<Rightarrow> Some (pointerUp s)
      | KeyEscape \<Rightarrow> Some (pointerUp s)
      | ControlInput bv rv \<Rightarrow>
          Some (syncControls (s \<lparr> brushSizeValue := bv, inpaintRadiusValue := rv \<rparr>))
      | ClearClick \<Rightarrow> Some (if btnClearDisabled s then s else btnClearClick s)
      | RemoveClick \<Rightarrow> Some (if btnRemoveDisabled s then s else btnRemoveClick s)
      | CvScript g \<Rightarrow> Some (s \<lparr> windowCv := g \<rparr>)
      | CvWaitOver ok \<Rightarrow>
          Some (s \<lparr> statusText := (if ok then StatusCvReady else StatusCvLoadFailed) \<rparr>))"

definition initial :: "app \<Rightarrow> bool" where
  \<comment> \<open>the page after the script has run: no image, both contexts present (the script
      throws otherwise), and \<open>syncControls()\<close> has disabled the three buttons\<close>
  "initial s \<longleftrightarrow>
     img s = None \<and> \<not> drawing s \<and> lastPoint s = None
     \<and> ctx2d (imgCanvas s) \<and> ctx2d (maskCanvas s)
     \<and> imgWidth s = width (imgCanvas s) \<and> imgHeight s = height (imgCanvas s)
     \<and> brush s = brushSizeValue s \<and> radius s = inpaintRadiusValue s
     \<and> btnRemoveDisabled s \<and> btnClearDisabled s \<and> btnDownloadDisabled s
     \<and> live (cvHeap s) = []"

inductive reachable :: "browser \<Rightarrow> app \<Rightarrow> bool" for br :: browser where
  start: "initial s \<Longrightarrow> reachable br s"
| after: "reachable br s \<Longrightarrow> step br ev s = Some s' \<Longrightarrow> reachable br s'"

text \<open>Two facts about the page that hold in every reachable state (proved below).\<close>

definition sizes_agree :: "app \<Rightarrow> bool" where
  "sizes_agree s \<longleftrightarrow>
     (case img s of None \<Rightarrow> True
      | Some im \<Rightarrow> width (imgCanvas s) = renderW im \<and> height (imgCanvas s) = renderH im
                  \<and> width (maskCanvas s) = renderW im \<and> height (maskCanvas s) = renderH im)"

definition enabled_has_image :: "app \<Rightarrow> bool" where
  "enabled_has_image s \<longleftrightarrow> btnRemoveDisabled s \<or> img s \<noteq> None"

definition removeWatermark :: "bool \<Rightarrow> htmlImage \<Rightarrow> (exn + canvas) option" where
  \<comment> \<open>the first argument tells whether the new canvas has a 2d context; the image is
      drawn at its natural size, so the canvas holds its bitmap\<close>
  "removeWatermark hasCtx im =
     (if \<not> hasCtx then Some (Inl (Error ''Canvas context not available''))
      else let c = \<lparr> width = naturalWidth im, height = naturalHeight im, ctx2d = True,
                     pixels = bitmap im \<rparr>
           in case getImageData c of Inl e \<Rightarrow> Some (Inl e)
              | Inr imageData \<Rightarrow>
                  (case fillRegion (naturalWidth im) (naturalHeight im) (idData imageData) of
                     None \<Rightarrow> None
                   | Some d \<Rightarrow> Some (Inr (c \<lparr> pixels := d \<rparr>))))"

section \<open>The region filler on whole-pixel rectangles, as a pure function\<close>

text \<open>
  The rectangle has whole-number coordinates when the height is a multiple of 20 or at
  least 667 and the width is a multiple of 4 or at least 600.  For these images the
  following definitions restate the filling rule on pixel coordinates, reading only the
  input buffer: the second definition of the filler, to be compared with \<open>fillRegion\<close>.
\<close>

definition whole_rect :: "nat \<Rightarrow> nat \<Rightarrow> bool" where
  "whole_rect w h \<longleftrightarrow> (20 dvd h \<or> 667 \<le> h) \<and> (4 dvd w \<or> 600 \<le> w)"

definition rectH :: "nat \<Rightarrow> nat" where
  "rectH h = (if 667 \<le> h then 100 else (3 * h) div 20)"

definition rectW :: "nat \<Rightarrow> nat" where
  "rectW w = (if 600 \<le> w then 150 else w div 4)"

definition rectTop :: "nat \<Rightarrow> nat" where
  "rectTop h = h - rectH h"

definition rectLeft :: "nat \<Rightarrow> nat" where
  "rectLeft w = w - rectW w"

definition in_rect :: "nat \<Rightarrow> nat \<Rightarrow> nat \<Rightarrow> nat \<Rightarrow> bool" where
  "in_rect w h x y \<longleftrightarrow> rectLeft w \<le> x \<and> x < w \<and> rectTop h \<le> y \<and> y < h"

definition sourceRow :: "nat \<Rightarrow> nat \<Rightarrow> int" where
  "sourceRow rtop y = max 0 (int rtop - (int y - int rtop) - 1)"

definition in_clean :: "nat \<Rightarrow> nat \<Rightarrow> int \<times> int \<Rightarrow> bool" where
  \<comment> \<open>a neighbour \<open>(ny, nx)\<close> that lies above the rectangle and inside the image\<close>
  "in_clean w rtop p \<longleftrightarrow> 0 \<le> fst p \<and> fst p < int rtop \<and> 0 \<le> snd p \<and> snd p < int w"

definition neighbours :: "nat \<Rightarrow> nat \<Rightarrow> nat \<Rightarrow> nat \<Rightarrow> (int \<times> int) list" where
  \<comment> \<open>the qualifying pixels \<open>(ny, nx)\<close> of the 3\<times>3 neighbourhood of \<open>(sourceRow, x)\<close>\<close>
  "neighbours w rtop x y =
     filter (in_clean w rtop)
       (List.product [sourceRow rtop y - 1, sourceRow rtop y, sourceRow rtop y + 1]
                     [int x - 1, int x, int x + 1])"

definition channel :: "byte list \<Rightarrow> nat \<Rightarrow> nat \<Rightarrow> int \<times> int \<Rightarrow> nat" where
  \<comment> \<open>channel \<open>c\<close> of the pixel \<open>(ny, nx)\<close>\<close>
  "channel d w c p = unat (d ! (4 * (nat (fst p) * w + nat (snd p)) + c))"

definition mean_byte :: "byte list \<Rightarrow> nat \<Rightarrow> (int \<times> int) list \<Rightarrow> nat \<Rightarrow> byte" where
  \<comment> \<open>the mean of a channel over the neighbours, rounded to the nearest byte, ties to even\<close>
  "mean_byte d w ns c =
     toUint8Clamp (Some (of_nat (sum_list (map (channel d w c) ns)) / of_nat (length ns)))"

definition filled_byte :: "byte list \<Rightarrow> nat \<Rightarrow> nat \<Rightarrow> nat \<Rightarrow> byte" where
  \<comment> \<open>byte \<open>i\<close> of the result, from the input \<open>d\<close>\<close>
  "filled_byte d w h i =
     (let x = (i div 4) mod w; y = (i div 4) div w; c = i mod 4;
          ns = neighbours w (rectTop h) x y
      in if in_rect w h x y \<and> ns \<noteq> []
         then (if c = 3 then 255 else mean_byte d w ns c)
         else d ! i)"

definition fill_pure :: "nat \<Rightarrow> nat \<Rightarrow> byte list \<Rightarrow> byte list" where
  "fill_pure w h d = map (filled_byte d w h) [0 ..< length d]"

text \<open>The accumulators of the neighbourhood loops, when they hold exact sums.\<close>

definition lift :: "nat \<times> nat \<times> nat \<times> nat \<Rightarrow> acc" where
  "lift t = (case t of (r, g, b, c) \<Rightarrow>
     \<lparr> accR = Some (of_nat r), accG = Some (of_nat g), accB = Some (of_nat b),
       accCount = of_nat c \<rparr>)"

definition fill_step :: "nat \<Rightarrow> nat \<Rightarrow> byte list \<Rightarrow> nat \<times> nat \<Rightarrow> byte list" where
  \<comment> \<open>what one iteration does to the current buffer at the whole pixel \<open>p = (x, y)\<close>\<close>
  "fill_step w rtop d p =
     (let ns = neighbours w rtop (fst p) (snd p); i = 4 * (snd p * w + fst p)
      in if ns \<noteq> []
         then d[i := mean_byte d w ns 0, i + 1 := mean_byte d w ns 1,
                i + 2 := mean_byte d w ns 2, i + 3 := 255]
         else d)"

definition rect_pixels :: "nat \<Rightarrow> nat \<Rightarrow> (nat \<times> nat) list" where
  \<comment> \<open>the pixels of the rectangle in the order of the two loops\<close>
  "rect_pixels w h = concat (map (\<lambda>y. map (\<lambda>x. (x, y)) [rectLeft w ..< w]) [rectTop h ..< h])"

section \<open>Concrete inputs\<close>

definition canvas1 :: canvas where
  \<comment> \<open>a canvas of one opaque black pixel\<close>
  "canvas1 = \<lparr> width = 1, height = 1, ctx2d = True, pixels = [0, 0, 0, 255] \<rparr>"

definition cvInpaintThrows :: cvLike where
  \<comment> \<open>a library object whose \<open>inpaint\<close> throws and whose other members succeed\<close>
  "cvInpaintThrows =
     \<lparr> matFromImageData = (\<lambda>d. Inr (Mat (idHeight d) (idWidth d) 4 (idData d))),
       cvtColor = (\<lambda>m code. Inr (Mat (rows m) (cols m) 3 [])),
       threshold = (\<lambda>m t mv ty. Inr m),
       inpaint = (\<lambda>src mask r f. Inl (Error ''inpaint'')),
       imshow = (\<lambda>c m. Inr c) \<rparr>"

definition heap0 :: heap where
  "heap0 = \<lparr> nextHandle = 0, live = [] \<rparr>"

definition br0 :: browser where
  \<comment> \<open>a browser that draws every image white and whose fills leave no mark\<close>
  "br0 = \<lparr> drawScaled = (\<lambda>im w h. replicate (4 * w * h) 255),
            fillArc = (\<lambda>c p r. pixels c) \<rparr>"

definition canvas0 :: canvas where
  \<comment> \<open>a canvas of the default size\<close>
  "canvas0 = \<lparr> width = 300, height = 150, ctx2d = True, pixels = replicate 180000 0 \<rparr>"

definition im1 :: htmlImage where
  "im1 = \<lparr> naturalWidth = 2, naturalHeight = 1, bitmap = [1, 2, 3, 255, 5, 6, 7, 255] \<rparr>"

definition app0 :: app where
  \<comment> \<open>the page before any image is chosen, OpenCV.js not yet loaded\<close>
  "app0 = \<lparr> img = None, imgWidth = 300, imgHeight = 150, drawing = False, brush = 24,
             radius = 5, lastPoint = None, imgCanvas = canvas0, maskCanvas = canvas0,
             outCanvas = canvas0, statusText = StatusInitial, brushSizeValue = 24,
             inpaintRadiusValue = 5, btnRemoveDisabled = True, btnClearDisabled = True,
             btnDownloadDisabled = True, windowCv = CvUndefined, cvHeap = heap0 \<rparr>"

definition app1 :: app where
  \<comment> \<open>then \<open>im1\<close> is chosen\<close>
  "app1 = loadImageFromFile br0 (Some im1) app0"

definition app2 :: app where
  \<comment> \<open>then a library arrives whose \<open>inpaint\<close> throws\<close>
  "app2 = app1 \<lparr> windowCv := CvReady cvInpaintThrows \<rparr>"

definition p0 :: point where
  "p0 = \<lparr> ptX = 0, ptY = 0 \<rparr>"

definition p9 :: point where
  "p9 = \<lparr> ptX = 9, ptY = 0 \<rparr>"

definition img410 :: "byte list" where
  \<comment> \<open>a 4 \<times> 10 image whose byte \<open>i\<close> is \<open>i\<close>\<close>
  "img410 = map of_nat [0 ..< 160]"

definition imgA :: "byte list" where
  \<comment> \<open>a 6 \<times> 20 image of transparent black\<close>
  "imgA = replicate 480 0"

definition imgB :: "byte list" where
  \<comment> \<open>the same with the red channel of pixel \<open>(0, 17)\<close> set to 255\<close>
  "imgB = (replicate 480 0)[408 := 255]"

definition imgC :: "byte list" where
  \<comment> \<open>a 4 \<times> 20 image of transparent black with the red channel of pixel \<open>(2, 15)\<close> set to 3\<close>
  "imgC = (replicate 320 0)[248 := 3]"

section \<open>Properties of the rounding\<close>

lemma rhe_of_int: "rhe (of_int n) = n"
  by (simp add: rhe_def)

lemma rhe_range: "\<lfloor>x\<rfloor> \<le> rhe x \<and> rhe x \<le> \<lfloor>x\<rfloor> + 1"
  by (simp add: rhe_def Let_def)

lemma rhe_mono: "x \<le> y \<Longrightarrow> rhe x \<le> rhe y"
proof -
  assume xy: "x \<le> y"
  have fxy: "\<lfloor>x\<rfloor> \<le> \<lfloor>y\<rfloor>" using xy by (rule floor_mono)
  show ?thesis
  proof (cases "\<lfloor>x\<rfloor> = \<lfloor>y\<rfloor>")
    case True
    then show ?thesis using xy by (auto simp: rhe_def Let_def)
  next
    case False
    then have "\<lfloor>x\<rfloor> + 1 \<le> \<lfloor>y\<rfloor>" using fxy by linarith
    then show ?thesis using rhe_range [of x] rhe_range [of y] by linarith
  qed
qed

lemma rhe_error: "\<bar>of_int (rhe x) - x\<bar> \<le> 1/2"
proof -
  have a: "of_int \<lfloor>x\<rfloor> \<le> x" and b: "x < of_int \<lfloor>x\<rfloor> + 1" by linarith+
  consider "x - of_int \<lfloor>x\<rfloor> < 1/2" | "1/2 < x - of_int \<lfloor>x\<rfloor>" | "x - of_int \<lfloor>x\<rfloor> = 1/2"
    by linarith
  then show ?thesis
  proof cases
    case 1
    then have "rhe x = \<lfloor>x\<rfloor>" by (simp add: rhe_def Let_def)
    then show ?thesis using a 1 by simp
  next
    case 2
    then have "rhe x = \<lfloor>x\<rfloor> + 1" by (simp add: rhe_def Let_def)
    then show ?thesis using b 2 by simp
  next
    case 3
    then have "rhe x = \<lfloor>x\<rfloor> \<or> rhe x = \<lfloor>x\<rfloor> + 1" by (simp add: rhe_def Let_def)
    then show ?thesis using 3 by auto
  qed
qed

lemma rhe_minus: "rhe (- x) = - rhe x"
proof (cases "of_int \<lfloor>x\<rfloor> = x")
  case True
  then obtain n where "x = of_int n" by metis
  then show ?thesis using rhe_of_int [of "-n"] rhe_of_int [of n] by simp
next
  case False
  then have fm: "\<lfloor>- x\<rfloor> = - \<lfloor>x\<rfloor> - 1"
    by (metis ceiling_altdef ceiling_def add_diff_cancel_right' minus_diff_eq uminus_add_conv_diff)
  have lt: "of_int \<lfloor>x\<rfloor> < x" using False by (simp add: less_le)
  show ?thesis unfolding rhe_def Let_def fm using lt
    by (auto simp: algebra_simps)
qed


lemma bitlen_powi:
  assumes "0 < p"
  shows "(2::rat) powi (bitlen p - 1) \<le> of_int p" and "of_int p < (2::rat) powi (bitlen p)"
proof -
  have b: "2 ^ nat (bitlen p - 1) \<le> p" "p < 2 ^ nat (bitlen p)"
    using bitlen_bounds [OF assms] by auto
  have ge1: "1 \<le> bitlen p" using assms by (simp add: bitlen_alt_def)
  have "(of_int (2 ^ nat (bitlen p - 1)) :: rat) \<le> of_int p" using b(1) by (rule of_int_le_iff [THEN iffD2])
  then show "(2::rat) powi (bitlen p - 1) \<le> of_int p" using ge1 by (simp add: power_int_def)
  have "(of_int p :: rat) < of_int (2 ^ nat (bitlen p))" using b(2) by (rule of_int_less_iff [THEN iffD2])
  then show "of_int p < (2::rat) powi (bitlen p)" using ge1 by (simp add: power_int_def)
qed

lemma ilog2_bounds:
  assumes "x \<noteq> 0"
  shows "2 powi ilog2 x \<le> \<bar>x\<bar>" and "\<bar>x\<bar> < 2 powi (ilog2 x + 1)"
proof -
  obtain p q where pq: "quotient_of \<bar>x\<bar> = (p, q)" by (cases "quotient_of \<bar>x\<bar>")
  have q: "0 < q" using pq by (rule quotient_of_denom_pos)
  have xe: "\<bar>x\<bar> = of_int p / of_int q" using pq by (rule quotient_of_div)
  have xpos: "0 < \<bar>x\<bar>" using assms by simp
  have p: "0 < p" using xpos q unfolding xe by (simp add: zero_less_divide_iff)
  note bp = bitlen_powi [OF p] and bq = bitlen_powi [OF q]
  define d where "d = bitlen p - bitlen q"
  have qr: "(0::rat) < of_int q" using q by simp
  have up: "\<bar>x\<bar> < 2 powi (d + 1)"
  proof -
    have "\<bar>x\<bar> < 2 powi (bitlen p) / of_int q" unfolding xe using bp(2) qr by (simp add: divide_strict_right_mono)
    also have "\<dots> \<le> 2 powi (bitlen p) / 2 powi (bitlen q - 1)"
      using bq(1) by (intro divide_left_mono) (auto intro!: mult_pos_pos qr)
    also have "\<dots> = 2 powi (d + 1)" unfolding d_def by (simp add: power_int_diff [symmetric] algebra_simps)
    finally show ?thesis .
  qed
  have lo: "2 powi (d - 1) \<le> \<bar>x\<bar>"
  proof -
    have "(2::rat) powi (d - 1) = 2 powi (bitlen p - 1) / 2 powi (bitlen q)"
      unfolding d_def by (simp add: power_int_diff [symmetric] algebra_simps)
    also have "\<dots> \<le> 2 powi (bitlen p - 1) / of_int q"
      using bq(2) qr by (intro divide_left_mono) auto
    also have "\<dots> \<le> \<bar>x\<bar>" unfolding xe using bp(1) qr by (simp add: divide_right_mono)
    finally show ?thesis .
  qed
  have il: "ilog2 x = (if 2 powi d \<le> \<bar>x\<bar> then d else d - 1)"
    by (simp add: ilog2_def pq d_def Let_def)
  show "2 powi ilog2 x \<le> \<bar>x\<bar>" using lo by (simp add: il)
  show "\<bar>x\<bar> < 2 powi (ilog2 x + 1)" using up by (auto simp: il)
qed

lemma powi2_mono: "a \<le> b \<Longrightarrow> (2::rat) powi a \<le> 2 powi b"
  by (rule power_int_increasing) simp_all

lemma powi2_less: "(2::rat) powi a < 2 powi b \<Longrightarrow> a < b"
  by (meson not_less powi2_mono)

lemma ilog2_unique:
  assumes "2 powi k \<le> \<bar>x\<bar>" and "\<bar>x\<bar> < 2 powi (k + 1)"
  shows "ilog2 x = k"
proof -
  have pos: "(0::rat) < 2 powi k" by simp
  have nz: "x \<noteq> 0"
  proof
    assume "x = 0"
    then have "(2::rat) powi k \<le> 0" using assms(1) by simp
    then show False using pos by linarith
  qed
  note b = ilog2_bounds [OF nz]
  have "(2::rat) powi k < 2 powi (ilog2 x + 1)" using assms(1) b(2) by linarith
  then have 1: "k < ilog2 x + 1" by (rule powi2_less)
  have "(2::rat) powi ilog2 x < 2 powi (k + 1)" using assms(2) b(1) by linarith
  then have 2: "ilog2 x < k + 1" by (rule powi2_less)
  show ?thesis using 1 2 by linarith
qed


lemma fl_exact:
  assumes "\<bar>m\<bar> \<le> 2 ^ 53"
  shows "fl (of_int m * 2 powi e) = of_int m * 2 powi e"
proof (cases "m = 0")
  case True
  then show ?thesis by (simp add: fl_def)
next
  case False
  define x :: rat where "x = of_int m * 2 powi e"
  have nz: "x \<noteq> 0" using False by (simp add: x_def)
  define k where "k = ilog2 x"
  note b = ilog2_bounds [OF nz, folded k_def]
  have ax: "\<bar>x\<bar> = of_int \<bar>m\<bar> * 2 powi e" by (simp add: x_def abs_mult)
  have "(of_int \<bar>m\<bar> :: rat) \<le> of_int (2 ^ 53)" using assms by (rule of_int_le_iff [THEN iffD2])
  then have "(of_int \<bar>m\<bar> :: rat) \<le> 2 powi 53" by simp
  then have "\<bar>x\<bar> \<le> 2 powi 53 * 2 powi e" unfolding ax by (intro mult_right_mono) auto
  also have "\<dots> = 2 powi (53 + e)" by (simp add: power_int_add)
  finally have "(2::rat) powi k \<le> 2 powi (53 + e)" using b(1) by linarith
  then have ke: "k \<le> 53 + e"
    by (meson not_less powi2_less power_int_strict_increasing one_less_numeral_iff semiring_norm(76) linorder_not_le order_less_imp_le)
  define u :: rat where "u = 2 powi (k - 52)"
  have upos: "0 < u" by (simp add: u_def)
  have "\<exists>n. x / u = of_int n"
  proof (cases "k < 53 + e")
    case True
    then have j: "0 \<le> e - k + 52" by linarith
    have "x / u = of_int m * 2 powi (e - (k - 52))"
      by (simp add: x_def u_def power_int_diff)
    also have "\<dots> = of_int m * 2 ^ nat (e - k + 52)"
      using j by (simp add: power_int_def algebra_simps)
    also have "\<dots> = of_int (m * 2 ^ nat (e - k + 52))" by simp
    finally show ?thesis by blast
  next
    case False
    then have keq: "k = 53 + e" using ke by linarith
    have "(2::rat) powi 53 * 2 powi e \<le> of_int \<bar>m\<bar> * 2 powi e"
      using b(1) unfolding ax keq by (simp add: power_int_add)
    then have "(2::rat) powi 53 \<le> of_int \<bar>m\<bar>" by simp
    then have "(of_int (2 ^ 53) :: rat) \<le> of_int \<bar>m\<bar>" by simp
    then have "2 ^ 53 \<le> \<bar>m\<bar>" by (rule of_int_le_iff [THEN iffD1])
    then have "\<bar>m\<bar> = 2 ^ 53" using assms by linarith
    then have "even \<bar>m\<bar>" by simp
    then have "even m" by simp
    then obtain h where h: "m = 2 * h" by (elim evenE)
    have "x / u = of_int m * 2 powi (e - (k - 52))"
      by (simp add: x_def u_def power_int_diff)
    also have "\<dots> = of_int m / 2" unfolding keq by (simp add: power_int_minus field_simps)
    also have "\<dots> = of_int h" by (simp add: h)
    finally show ?thesis by blast
  qed
  then obtain n where n: "x / u = of_int n" by blast
  then have xu: "x = of_int n * u" using upos by (simp add: field_simps)
  have "fl x = of_int (rhe (x / u)) * u"
    using nz by (simp add: fl_def Let_def u_def k_def)
  also have "\<dots> = x" by (simp add: n rhe_of_int xu)
  finally show ?thesis by (simp add: x_def)
qed


lemma ilog2_minus: "ilog2 (- x) = ilog2 x"
  by (simp add: ilog2_def)

lemma fl_minus: "fl (- x) = - fl x"
  by (simp add: fl_def Let_def ilog2_minus rhe_minus)

lemma fl_zero: "fl 0 = 0"
  by (simp add: fl_def)

lemma fl_pos_bounds:
  assumes "0 < x"
  shows "2 powi ilog2 x \<le> fl x" and "fl x \<le> 2 powi (ilog2 x + 1)"
proof -
  have nz: "x \<noteq> 0" using assms by simp
  define k where "k = ilog2 x"
  define u :: rat where "u = 2 powi (k - 52)"
  have upos: "0 < u" by (simp add: u_def)
  note b = ilog2_bounds [OF nz, folded k_def]
  have ax: "\<bar>x\<bar> = x" using assms by simp
  have f: "fl x = of_int (rhe (x / u)) * u"
    using nz by (simp add: fl_def Let_def u_def k_def)
  have ku: "(2::rat) powi k = 2 ^ 52 * u" "(2::rat) powi (k + 1) = 2 ^ 53 * u"
    by (simp_all add: u_def power_int_diff power_int_add)
  have "of_int (2 ^ 52) \<le> x / u" using b(1) upos unfolding ax ku by (simp add: field_simps)
  then have "rhe (of_int (2 ^ 52)) \<le> rhe (x / u)" by (rule rhe_mono)
  then have "2 ^ 52 \<le> rhe (x / u)" by (simp only: rhe_of_int)
  then have "(of_int (2 ^ 52) :: rat) \<le> of_int (rhe (x / u))" by (rule of_int_le_iff [THEN iffD2])
  then have "2 ^ 52 * u \<le> of_int (rhe (x / u)) * u" using upos by (simp add: mult_right_mono)
  then show "2 powi ilog2 x \<le> fl x" unfolding f k_def [symmetric] ku .
  have "x / u \<le> of_int (2 ^ 53)" using b(2) upos unfolding ax ku by (simp add: field_simps)
  then have "rhe (x / u) \<le> rhe (of_int (2 ^ 53))" by (rule rhe_mono)
  then have "rhe (x / u) \<le> 2 ^ 53" by (simp only: rhe_of_int)
  then have "(of_int (rhe (x / u)) :: rat) \<le> of_int (2 ^ 53)" by (rule of_int_le_iff [THEN iffD2])
  then have "of_int (rhe (x / u)) * u \<le> 2 ^ 53 * u" using upos by (simp add: mult_right_mono)
  then show "fl x \<le> 2 powi (ilog2 x + 1)" unfolding f k_def [symmetric] ku .
qed

lemma fl_pos: "0 < x \<Longrightarrow> 0 < fl x"
proof -
  assume a: "0 < x"
  have "(0::rat) < 2 powi ilog2 x" by simp
  then show ?thesis using fl_pos_bounds(1) [OF a] by linarith
qed

lemma fl_nonneg: "0 \<le> x \<Longrightarrow> 0 \<le> fl x"
  using fl_pos [of x] by (cases "x = 0") (auto simp: fl_zero less_le)

lemma fl_nonpos: "x \<le> 0 \<Longrightarrow> fl x \<le> 0"
  using fl_nonneg [of "- x"] by (simp add: fl_minus)

lemma fl_mono_pos:
  assumes "0 < x" and "x \<le> y"
  shows "fl x \<le> fl y"
proof -
  have ypos: "0 < y" using assms by linarith
  have nzx: "x \<noteq> 0" and nzy: "y \<noteq> 0" using assms ypos by auto
  note bx = ilog2_bounds [OF nzx] and bdy = ilog2_bounds [OF nzy]
  have "(2::rat) powi ilog2 x < 2 powi (ilog2 y + 1)" using bx(1) bdy(2) assms ypos by simp
  then have le: "ilog2 x < ilog2 y + 1" by (rule powi2_less)
  show ?thesis
  proof (cases "ilog2 x = ilog2 y")
    case True
    define u :: rat where "u = 2 powi (ilog2 y - 52)"
    have upos: "0 < u" by (simp add: u_def)
    have fx: "fl x = of_int (rhe (x / u)) * u" using nzx by (simp add: fl_def Let_def u_def True)
    have fy: "fl y = of_int (rhe (y / u)) * u" using nzy by (simp add: fl_def Let_def u_def)
    have "x / u \<le> y / u" using assms(2) upos by (simp add: divide_right_mono)
    then have "rhe (x / u) \<le> rhe (y / u)" by (rule rhe_mono)
    then have "(of_int (rhe (x / u)) :: rat) \<le> of_int (rhe (y / u))" by (rule of_int_le_iff [THEN iffD2])
    then show ?thesis unfolding fx fy using upos by (simp add: mult_right_mono)
  next
    case False
    then have "ilog2 x + 1 \<le> ilog2 y" using le by linarith
    then have "(2::rat) powi (ilog2 x + 1) \<le> 2 powi ilog2 y" by (rule powi2_mono)
    then show ?thesis using fl_pos_bounds(2) [OF assms(1)] fl_pos_bounds(1) [OF ypos] by linarith
  qed
qed

lemma fl_mono: "x \<le> y \<Longrightarrow> fl x \<le> fl y"
proof -
  assume xy: "x \<le> y"
  consider "0 < x" | "x \<le> 0" "0 \<le> y" | "y < 0" by linarith
  then show ?thesis
  proof cases
    case 1
    then show ?thesis using xy by (rule fl_mono_pos)
  next
    case 2
    then show ?thesis using fl_nonpos [of x] fl_nonneg [of y] by linarith
  next
    case 3
    then have "0 < - y" "- y \<le> - x" using xy by auto
    then have "fl (- y) \<le> fl (- x)" by (rule fl_mono_pos)
    then show ?thesis by (simp add: fl_minus)
  qed
qed

lemma fl_error:
  assumes "x \<noteq> 0"
  shows "\<bar>fl x - x\<bar> \<le> 2 powi (ilog2 x - 53)"
proof -
  define u :: rat where "u = 2 powi (ilog2 x - 52)"
  have upos: "0 < u" by (simp add: u_def)
  have f: "fl x = of_int (rhe (x / u)) * u" using assms by (simp add: fl_def Let_def u_def)
  have "fl x - x = (of_int (rhe (x / u)) - x / u) * u" using upos by (simp add: f field_simps)
  then have "\<bar>fl x - x\<bar> = \<bar>of_int (rhe (x / u)) - x / u\<bar> * u" using upos by (simp add: abs_mult)
  also have "\<dots> \<le> 1 / 2 * u" using rhe_error [of "x / u"] upos by (intro mult_right_mono) auto
  also have "\<dots> = 2 powi (ilog2 x - 53)" by (simp add: u_def power_int_diff)
  finally show ?thesis .
qed

lemma fl_of_int: "\<bar>n\<bar> \<le> 2 ^ 53 \<Longrightarrow> fl (of_int n) = of_int n"
  using fl_exact [of n 0] by simp

lemma fl_of_nat: "n \<le> 2 ^ 53 \<Longrightarrow> fl (of_nat n) = of_nat n"
  using fl_of_int [of "int n"] by simp

lemma fl_numeral: "numeral n \<le> (2::int) ^ 53 \<Longrightarrow> fl (numeral n) = numeral n"
  using fl_of_int [of "numeral n"] by simp

lemma fl_one: "fl 1 = 1"
  using fl_of_int [of 1] by simp

lemma jsadd_of_nat_1:
  assumes "Suc k \<le> 2 ^ 53"
  shows "jsadd (of_nat k) 1 = of_nat (Suc k)"
proof -
  have "(of_nat k :: rat) + 1 = of_nat (Suc k)" by simp
  then have "jsadd (of_nat k) 1 = fl (of_nat (Suc k))" unfolding jsadd_def by (rule arg_cong)
  then show ?thesis using fl_of_nat [OF assms] by (simp only:)
qed

section \<open>The inpainting adapter: native handles\<close>

lemma removeAll_fresh:
  assumes "\<forall>i \<in> set xs. i < (n::nat)" and "n \<le> m"
  shows "removeAll m xs = xs"
proof -
  have "m \<notin> set xs"
  proof
    assume "m \<in> set xs"
    then have "m < n" using assms(1) by blast
    then show False using assms(2) by simp
  qed
  then show ?thesis by (rule removeAll_id)
qed

text \<open>When no call throws, the six handles allocated by the invocation are deleted.\<close>

lemma inpaintToCanvas_success_releases:
  assumes "inpaintToCanvas cv ic mc oc r h = (Inr out, h')"
    and "\<forall>i \<in> set (live h). i < nextHandle h"
  shows "live h' = live h"
  using assms(1) removeAll_fresh [OF assms(2)]
  by (auto simp: inpaintToCanvas_def alloc_def delete_def Let_def
      split: if_splits sum.splits prod.splits)

text \<open>
  C7.  The claim says that the six temporary \<open>Mat\<close> handles are released after every
  invocation, also when an intermediate call throws.  The \<open>delete()\<close> calls are the last
  statements of \<open>inpaintToCanvas\<close> and are not in a \<open>finally\<close> block: when \<open>cv.inpaint\<close>
  throws, on an empty heap, the invocation ends with all six handles still allocated.
\<close>

theorem inpaintToCanvas_leaks_when_inpaint_throws:
  "inpaintToCanvas cvInpaintThrows canvas1 canvas1 canvas1 5 heap0
   = (Inl (Error ''inpaint''), \<lparr> nextHandle = 6, live = [0, 1, 2, 3, 4, 5] \<rparr>)"
  by (simp add: inpaintToCanvas_def cvInpaintThrows_def canvas1_def heap0_def getImageData_def
      alloc_def clamp_def)

theorem inpaintToCanvas_leaks_witness:
  "live heap0 = [] \<and>
   live (snd (inpaintToCanvas cvInpaintThrows canvas1 canvas1 canvas1 5 heap0)) = [0, 1, 2, 3, 4, 5]"
  using inpaintToCanvas_leaks_when_inpaint_throws by (simp add: heap0_def)

section \<open>The inpainting adapter: the page's invariants\<close>

lemma syncControls_fields [simp]:
  "img (syncControls s) = img s"
  "imgCanvas (syncControls s) = imgCanvas s"
  "maskCanvas (syncControls s) = maskCanvas s"
  "outCanvas (syncControls s) = outCanvas s"
  "statusText (syncControls s) = statusText s"
  "cvHeap (syncControls s) = cvHeap s"
  "windowCv (syncControls s) = windowCv s"
  by (simp_all add: syncControls_def Let_def)

lemma syncControls_enabled:
  "\<not> btnRemoveDisabled (syncControls s) \<Longrightarrow> img s \<noteq> None"
  by (simp add: syncControls_def Let_def)

lemma drawBrush_size [simp]:
  "width (drawBrush br c p b) = width c" "height (drawBrush br c p b) = height c"
  by (simp_all add: drawBrush_def)

lemma fold_drawBrush_size:
  "width (fold (\<lambda>p c'. drawBrush br c' p b) ps c) = width c
   \<and> height (fold (\<lambda>p c'. drawBrush br c' p b) ps c) = height c"
  by (induction ps arbitrary: c) simp_all

lemma drawLine_size:
  "drawLine br c a b bs = Some c' \<Longrightarrow> width c' = width c \<and> height c' = height c"
  by (auto simp: drawLine_def fold_drawBrush_size split: option.splits)

lemma clearAll_size [simp]:
  "width (clearAll c) = width c" "height (clearAll c) = height c"
  by (simp_all add: clearAll_def)

lemma drawCanvas_size:
  "drawCanvas dst src = Inr c \<Longrightarrow> width c = width dst \<and> height c = height dst"
  by (auto simp: drawCanvas_def split: if_splits)

lemma renderImage_size:
  "renderImage br ic mc im = (ic', mc', w, h) \<Longrightarrow>
     w = renderW im \<and> h = renderH im \<and> width ic' = w \<and> height ic' = h
     \<and> width mc' = w \<and> height mc' = h"
  by (auto simp: renderImage_def Let_def setSize_def clearAll_def clearMask_def)

lemma btnRemoveClick_img [simp]: "img (btnRemoveClick s) = img s"
  by (simp add: btnRemoveClick_def Let_def split: cv_global.splits prod.splits sum.splits)

lemma btnRemoveClick_mask [simp]: "maskCanvas (btnRemoveClick s) = maskCanvas s"
  by (simp add: btnRemoveClick_def Let_def split: cv_global.splits prod.splits sum.splits)

lemma btnRemoveClick_imgCanvas_size:
  "width (imgCanvas (btnRemoveClick s)) = width (imgCanvas s)
   \<and> height (imgCanvas (btnRemoveClick s)) = height (imgCanvas s)"
  by (auto simp: btnRemoveClick_def Let_def dest: drawCanvas_size
      split: cv_global.splits prod.splits sum.splits)

lemma step_sizes_agree:
  assumes "sizes_agree s" and "step br ev s = Some s'"
  shows "sizes_agree s'"
proof (cases ev)
  case (FileChosen decoded)
  then show ?thesis using assms
    by (auto simp: step_def loadImageFromFile_def sizes_agree_def
        dest!: renderImage_size split: option.splits prod.splits)
next
  case (PointerMove p sh)
  then show ?thesis using assms
    by (auto simp: step_def pointerMove_def sizes_agree_def
        dest!: drawLine_size split: option.splits if_splits)
next
  case RemoveClick
  then show ?thesis using assms btnRemoveClick_imgCanvas_size [of s]
    by (auto simp: step_def sizes_agree_def split: option.splits if_splits)
qed (use assms in \<open>auto simp: step_def sizes_agree_def pointerDown_def pointerUp_def
       btnClearClick_def clearMask_def split: option.splits if_splits\<close>)

lemma reachable_sizes_agree: "reachable br s \<Longrightarrow> sizes_agree s"
proof (induction rule: reachable.induct)
  case (start s)
  then show ?case by (simp add: initial_def sizes_agree_def)
next
  case (after s ev s')
  then show ?case using step_sizes_agree by blast
qed

lemma step_enabled_has_image:
  assumes "enabled_has_image s" and "step br ev s = Some s'"
  shows "enabled_has_image s'"
proof (cases ev)
  case (FileChosen decoded)
  then show ?thesis using assms
    by (auto simp: step_def loadImageFromFile_def enabled_has_image_def syncControls_def Let_def
        split: option.splits prod.splits)
next
  case (PointerMove p sh)
  then show ?thesis using assms
    by (auto simp: step_def pointerMove_def enabled_has_image_def
        split: option.splits if_splits)
next
  case RemoveClick
  then show ?thesis using assms
    by (auto simp: step_def enabled_has_image_def btnRemoveClick_def syncControls_def Let_def
        split: option.splits if_splits cv_global.splits prod.splits sum.splits)
qed (use assms in \<open>auto simp: step_def enabled_has_image_def pointerDown_def pointerUp_def
       btnClearClick_def syncControls_def Let_def split: option.splits if_splits\<close>)

lemma reachable_enabled_has_image: "reachable br s \<Longrightarrow> enabled_has_image s"
proof (induction rule: reachable.induct)
  case (start s)
  then show ?case by (simp add: initial_def enabled_has_image_def)
next
  case (after s ev s')
  then show ?case using step_enabled_has_image by blast
qed


lemma renderW_pos: "0 < renderW im" and renderH_pos: "0 < renderH im"
  by (simp_all add: renderW_def renderH_def)

lemma initial_app0: "initial app0"
  by (simp add: initial_def app0_def canvas0_def heap0_def)

lemma reachable_app1: "reachable br0 app1"
proof -
  have "reachable br0 app0" using initial_app0 by (rule reachable.start)
  moreover have "step br0 (FileChosen (Some im1)) app0 = Some app1"
    by (simp add: step_def app1_def)
  ultimately show ?thesis by (rule reachable.after)
qed

lemma img_app1: "img app1 = Some im1"
  by (simp add: app1_def loadImageFromFile_def split: prod.splits)

lemma reachable_app2: "reachable br0 app2"
proof -
  have "step br0 (CvScript (CvReady cvInpaintThrows)) app1 = Some app2"
    by (simp add: step_def app2_def)
  with reachable_app1 show ?thesis by (rule reachable.after)
qed

lemma enabled_app1: "\<not> btnRemoveDisabled app1"
  using renderW_pos [of im1] renderH_pos [of im1]
  by (simp add: app1_def loadImageFromFile_def syncControls_def Let_def renderImage_def
      setSize_def clearAll_def)

lemma enabled_app2: "\<not> btnRemoveDisabled app2"
  using enabled_app1 by (simp add: app2_def)

lemma throws_app2:
  "\<exists>h. inpaintToCanvas cvInpaintThrows (imgCanvas app2) (maskCanvas app2) (outCanvas app2)
        (radius app2) (cvHeap app2) = (Inl (Error ''inpaint''), h)"
proof -
  have a: "sizes_agree app2" using reachable_app2 by (rule reachable_sizes_agree)
  have i: "img app2 = Some im1" using img_app1 by (simp add: app2_def)
  have sz: "width (imgCanvas app2) = renderW im1" "height (imgCanvas app2) = renderH im1"
      "width (maskCanvas app2) = renderW im1" "height (maskCanvas app2) = renderH im1"
    using a i by (simp_all add: sizes_agree_def)
  have c: "ctx2d (imgCanvas app2)" "ctx2d (maskCanvas app2)"
    by (simp_all add: app2_def app1_def loadImageFromFile_def renderImage_def Let_def
        setSize_def clearAll_def clearMask_def app0_def canvas0_def)
  show ?thesis using sz c renderW_pos [of im1] renderH_pos [of im1]
    by (simp add: inpaintToCanvas_def getImageData_def cvInpaintThrows_def alloc_def Let_def
        split: prod.splits)
qed


text \<open>
  C9.  Whenever an image is loaded, and so whenever the remove handler gets past its first
  guard and calls \<open>inpaintToCanvas\<close>, the image canvas and the mask canvas both have the
  size \<open>w \<times> h\<close> that \<open>renderImage\<close> computed for that image,
  \<open>w = max(1, round(naturalWidth \<sqdot> scale))\<close> and \<open>h = max(1, round(naturalHeight \<sqdot> scale))\<close>;
  the two pixel buffers that the adapter reads have the same dimensions.
\<close>

theorem canvases_same_size_when_inpainting:
  assumes "reachable br s" and "img s = Some im"
  shows "width (imgCanvas s) = renderW im \<and> height (imgCanvas s) = renderH im
     \<and> width (maskCanvas s) = renderW im \<and> height (maskCanvas s) = renderH im
     \<and> renderW im = nat (max 1 (jsround (jsmul (of_nat (naturalWidth im)) (renderScale im))))
     \<and> renderH im = nat (max 1 (jsround (jsmul (of_nat (naturalHeight im)) (renderScale im))))
     \<and> (\<exists>di dm. getImageData (imgCanvas s) = Inr di \<and> getImageData (maskCanvas s) = Inr dm
            \<and> idWidth di = idWidth dm \<and> idHeight di = idHeight dm)"
proof -
  have "sizes_agree s" using assms(1) by (rule reachable_sizes_agree)
  then have sz: "width (imgCanvas s) = renderW im" "height (imgCanvas s) = renderH im"
      "width (maskCanvas s) = renderW im" "height (maskCanvas s) = renderH im"
    using assms(2) by (simp_all add: sizes_agree_def)
  show ?thesis using sz renderW_pos [of im] renderH_pos [of im]
    by (simp add: getImageData_def renderW_def renderH_def)
qed

theorem canvases_same_size_witness:
  "reachable br0 app1 \<and> img app1 = Some im1
   \<and> width (imgCanvas app1) = width (maskCanvas app1)
   \<and> height (imgCanvas app1) = height (maskCanvas app1)"
  using canvases_same_size_when_inpainting [OF reachable_app1 img_app1]
  by (simp add: reachable_app1 img_app1)


text \<open>
  C6.  When the remove action is invoked (the click is dispatched, so the button is
  enabled) and the library is not ready, the handler only sets the not-ready status and
  returns.  When the library is there and the primitive call raises an error, the handler
  returns with the processing-failure status and the image canvas is what it was.
\<close>

theorem remove_click_not_ready_or_failed:
  assumes "reachable br s" and "\<not> btnRemoveDisabled s"
  shows "(\<not> isCvReady (windowCv s) \<longrightarrow>
            step br RemoveClick s = Some (s \<lparr> statusText := StatusCvNotReady \<rparr>))
     \<and> (\<forall>cv e h. windowCv s = CvReady cv \<longrightarrow>
            inpaintToCanvas cv (imgCanvas s) (maskCanvas s) (outCanvas s) (radius s) (cvHeap s)
              = (Inl e, h) \<longrightarrow>
            (\<exists>s'. step br RemoveClick s = Some s' \<and> statusText s' = StatusFailed
                  \<and> imgCanvas s' = imgCanvas s))"
proof -
  have "enabled_has_image s" using assms(1) by (rule reachable_enabled_has_image)
  then have im: "img s \<noteq> None" using assms(2) by (simp add: enabled_has_image_def)
  show ?thesis using im assms(2)
    by (auto simp: step_def btnRemoveClick_def isCvReady_def Let_def split: cv_global.splits)
qed

theorem remove_click_witness:
  "reachable br0 app1 \<and> \<not> btnRemoveDisabled app1 \<and> \<not> isCvReady (windowCv app1)
   \<and> step br0 RemoveClick app1 = Some (app1 \<lparr> statusText := StatusCvNotReady \<rparr>)
   \<and> reachable br0 app2 \<and> \<not> btnRemoveDisabled app2 \<and> windowCv app2 = CvReady cvInpaintThrows
   \<and> (\<exists>s'. step br0 RemoveClick app2 = Some s' \<and> statusText s' = StatusFailed
           \<and> imgCanvas s' = imgCanvas app2)"
proof -
  have w1: "windowCv app1 = CvUndefined"
    by (simp add: app1_def loadImageFromFile_def app0_def split: prod.splits)
  have w2: "windowCv app2 = CvReady cvInpaintThrows" by (simp add: app2_def)
  from throws_app2 obtain h where
    t: "inpaintToCanvas cvInpaintThrows (imgCanvas app2) (maskCanvas app2) (outCanvas app2)
          (radius app2) (cvHeap app2) = (Inl (Error ''inpaint''), h)" by blast
  show ?thesis
    using remove_click_not_ready_or_failed [OF reachable_app1 enabled_app1]
      remove_click_not_ready_or_failed [OF reachable_app2 enabled_app2] w1 w2 t
      reachable_app1 reachable_app2 enabled_app1 enabled_app2
    by (simp add: isCvReady_def)
qed


section \<open>The inpainting adapter: thresholding the mask\<close>

lemma unat_gt1: "(1 < uint (v::byte)) = (Suc 0 < unat v)"
  by (metis One_nat_def of_nat_unat one_of_nat_less_iff)

text \<open>
  C5, as the claim states it, fails: the adapter calls \<open>cv.threshold\<close> with cutoff 1,
  maximum 255 and \<open>THRESH_BINARY\<close>, which selects the intensities strictly above the
  cutoff.  Intensity 1 is mapped to 0 and intensity 255 to 255.
\<close>

theorem threshold_intensity_1_counterexample:
  "opencvThreshold (Mat 1 2 1 [1, 255]) 1 255 THRESH_BINARY = Inr (Mat 1 2 1 [0, 255])"
  by (simp add: opencvThreshold_def toUint8Clamp_def)

text \<open>
  C5, amended.  With cutoff 1 and maximum 255 the thresholding step maps every intensity
  greater than 1 to 255 and the intensities 0 and 1 to 0; the result is a strict binary
  mask of the same shape.
\<close>

theorem threshold_cutoff_1_binary:
  "opencvThreshold (Mat r c ch d) 1 255 THRESH_BINARY
   = Inr (Mat r c ch (map (\<lambda>v. if 1 < unat v then 255 else 0) d))"
  by (simp add: opencvThreshold_def toUint8Clamp_def unat_gt1)

theorem threshold_cutoff_1_witness:
  "opencvThreshold (Mat 1 4 1 [0, 1, 2, 255]) 1 255 THRESH_BINARY
   = Inr (Mat 1 4 1 [0, 0, 255, 255])"
  using threshold_cutoff_1_binary [of 1 4 1 "[0, 1, 2, 255]"] by simp

section \<open>The inpainting adapter: stroke interpolation\<close>

lemma lineLoop_run:
  assumes "steps < 2 ^ 53" and "int k \<le> steps + 1"
  shows "lineLoop a b steps (of_nat k) acc =
         Some (acc @ map (\<lambda>i. linePoint a b steps (of_nat i)) [k ..< nat (steps + 1)])"
  using assms(2)
proof (induction "nat (steps + 1) - k" arbitrary: k acc)
  case 0
  then have k: "int k = steps + 1" by linarith
  then have "\<not> (of_nat k :: rat) \<le> of_int steps"
    by (metis of_int_of_nat_eq of_int_le_iff add_le_same_cancel1 not_one_le_zero)
  moreover have "[k ..< nat (steps + 1)] = []" using k by simp
  ultimately show ?case by (subst lineLoop.simps) simp
next
  case (Suc n)
  then have k: "int k \<le> steps" by linarith
  then have le: "(of_nat k :: rat) \<le> of_int steps"
    by (metis of_int_of_nat_eq of_int_le_iff)
  have "int (Suc k) \<le> 2 ^ 53" using k assms(1) by simp
  then have "Suc k \<le> 2 ^ 53" by (metis of_nat_le_iff of_nat_numeral of_nat_power)
  then have j: "jsadd (of_nat k) 1 = of_nat (Suc k)" by (rule jsadd_of_nat_1)
  have n: "n = nat (steps + 1) - Suc k" using Suc.hyps(2) by linarith
  have k2: "int (Suc k) \<le> steps + 1" using k by simp
  have up: "[k ..< nat (steps + 1)] = k # [Suc k ..< nat (steps + 1)]"
    using k by (intro upt_conv_Cons) linarith
  have "lineLoop a b steps (of_nat k) acc =
      lineLoop a b steps (jsadd (of_nat k) 1) (acc @ [linePoint a b steps (of_nat k)])"
    by (subst lineLoop.simps) (simp only: le if_True)
  also have "\<dots> = lineLoop a b steps (of_nat (Suc k)) (acc @ [linePoint a b steps (of_nat k)])"
    by (simp only: j)
  also have "\<dots> = Some ((acc @ [linePoint a b steps (of_nat k)]) @
      map (\<lambda>i. linePoint a b steps (of_nat i)) [Suc k ..< nat (steps + 1)])"
    by (rule Suc.hyps(1) [OF n k2])
  also have "\<dots> = Some (acc @ map (\<lambda>i. linePoint a b steps (of_nat i)) [k ..< nat (steps + 1)])"
    unfolding up by simp
  finally show ?case .
qed

lemma isqrt_bits_nonneg: "0 \<le> r \<Longrightarrow> 0 \<le> isqrt_bits n t r"
  by (induction n arbitrary: r) auto

lemma jssqrt_nonneg: "0 \<le> jssqrt x"
  using isqrt_bits_nonneg [of 0 53]
  by (auto simp: jssqrt_def Let_def intro!: mult_nonneg_nonneg add_nonneg_nonneg)

lemma jssqrt_0: "jssqrt 0 = 0"
  by (simp add: jssqrt_def)

lemma lineDist_same: "ptX a = ptX b \<Longrightarrow> ptY a = ptY b \<Longrightarrow> lineDist a b = 0"
  by (simp add: lineDist_def jssub_def jsmul_def jsadd_def fl_zero jssqrt_0)

lemma lineSteps_nonneg: "0 \<le> lineSteps a b bs"
proof -
  have "0 \<le> lineDist a b" by (simp add: lineDist_def Let_def jssqrt_nonneg)
  then have "0 \<le> lineDist a b / max 1 (jsdiv bs 3)" by simp
  then have "0 \<le> jsdiv (lineDist a b) (max 1 (jsdiv bs 3))"
    unfolding jsdiv_def by (rule fl_nonneg)
  then show ?thesis by (simp add: lineSteps_def Let_def)
qed


lemma jssqrt_81: "jssqrt 81 = 9"
  by code_simp

lemma lineDist_p0_p9: "lineDist p0 p9 = 9"
  by (simp add: lineDist_def p0_def p9_def jssub_def jsmul_def jsadd_def fl_numeral fl_zero
      jssqrt_81)

lemma lineSteps_p0_p9: "lineSteps p0 p9 3 = 9"
  by (simp add: lineSteps_def lineDist_p0_p9 jsdiv_def fl_numeral fl_one)

lemma lineSteps_p0_p0: "lineSteps p0 p0 3 = 0"
  by (simp add: lineSteps_def lineDist_same jsdiv_def fl_zero)

text \<open>
  C8, as the claim states it, fails: the loop of \<open>drawLine\<close> runs for \<open>i = 0, \<dots>, steps\<close>,
  so it draws one stamp more than \<open>steps = ceil(dist / max(1, brushSize / 3))\<close>.  Between
  \<open>(0, 0)\<close> and \<open>(9, 0)\<close> with brush size 3 the quotient is 9 and 10 stamps are drawn;
  between coincident points the quotient is 0 and 1 stamp is drawn.
\<close>

theorem drawLine_stamp_count_counterexample:
  "lineSteps p0 p9 3 = 9 \<and> map_option length (lineStamps p0 p9 3) = Some 10
   \<and> lineSteps p0 p0 3 = 0 \<and> map_option length (lineStamps p0 p0 3) = Some 1"
proof -
  have a: "map_option length (lineStamps p0 p9 3) = Some 10"
    using lineLoop_run [of 9 0 p0 p9 "[]"] by (simp add: lineStamps_def lineSteps_p0_p9)
  have b: "map_option length (lineStamps p0 p0 3) = Some 1"
    using lineLoop_run [of 0 0 p0 p0 "[]"] by (simp add: lineStamps_def lineSteps_p0_p0)
  show ?thesis using a b by (simp add: lineSteps_p0_p9 lineSteps_p0_p0)
qed

text \<open>
  C8, amended.  With \<open>steps = ceil(dist / max(1, brushSize / 3))\<close> (below \<open>2\<^sup>5\<^sup>3\<close>, so that
  the counter is exact), \<open>drawLine\<close> draws \<open>steps + 1\<close> stamps, the stamp of iteration \<open>i\<close>
  at parameter \<open>i / steps\<close> of the segment.  Two points at computed distance
  \<open>3 \<sqdot> brushSize\<close>, with a positive brush size, get at least 2 stamps; coincident points get
  exactly 1 stamp, and no quotient by zero is formed.
\<close>

theorem drawLine_stamp_count:
  assumes "lineSteps a b brushSize < 2 ^ 53"
  shows "\<exists>stamps. lineStamps a b brushSize = Some stamps
     \<and> lineSteps a b brushSize = \<lceil>jsdiv (lineDist a b) (max 1 (jsdiv brushSize 3))\<rceil>
     \<and> length stamps = nat (lineSteps a b brushSize) + 1
     \<and> stamps = map (\<lambda>i. linePoint a b (lineSteps a b brushSize) (of_nat i))
                    [0 ..< nat (lineSteps a b brushSize) + 1]
     \<and> (0 < brushSize \<and> lineDist a b = 3 * brushSize \<longrightarrow> 2 \<le> length stamps)
     \<and> (ptX a = ptX b \<and> ptY a = ptY b \<longrightarrow> length stamps = 1)"
proof -
  define steps where "steps = lineSteps a b brushSize"
  have nn: "0 \<le> steps" unfolding steps_def by (rule lineSteps_nonneg)
  have lt: "steps < 2 ^ 53" using assms by (simp add: steps_def)
  have k0: "int 0 \<le> steps + 1" using nn by simp
  have run: "lineStamps a b brushSize =
      Some (map (\<lambda>i. linePoint a b steps (of_nat i)) [0 ..< nat (steps + 1)])"
    using lineLoop_run [OF lt k0, of a b "[]"] by (simp add: lineStamps_def steps_def)
  have n1: "nat (steps + 1) = nat steps + 1" using nn by linarith
  have far: "1 \<le> steps" if "0 < brushSize" and "lineDist a b = 3 * brushSize"
  proof -
    have "0 < max 1 (jsdiv brushSize 3)" by simp
    then have "0 < lineDist a b / max 1 (jsdiv brushSize 3)" using that by simp
    then have "0 < jsdiv (lineDist a b) (max 1 (jsdiv brushSize 3))"
      unfolding jsdiv_def by (rule fl_pos)
    then show ?thesis by (simp add: steps_def lineSteps_def Let_def)
  qed
  have same: "steps = 0" if "ptX a = ptX b" and "ptY a = ptY b"
    using lineDist_same [OF that] by (simp add: steps_def lineSteps_def Let_def jsdiv_def fl_zero)
  let ?stamps = "map (\<lambda>i. linePoint a b steps (of_nat i)) [0 ..< nat steps + 1]"
  have 1: "lineStamps a b brushSize = Some ?stamps" using run by (simp only: n1)
  have 2: "steps = \<lceil>jsdiv (lineDist a b) (max 1 (jsdiv brushSize 3))\<rceil>"
    by (simp add: steps_def lineSteps_def Let_def)
  have 3: "length ?stamps = nat steps + 1" by simp
  have 4: "0 < brushSize \<and> lineDist a b = 3 * brushSize \<longrightarrow> 2 \<le> length ?stamps"
    using far by auto
  have 5: "ptX a = ptX b \<and> ptY a = ptY b \<longrightarrow> length ?stamps = 1"
    using same by auto
  show ?thesis unfolding steps_def [symmetric] using 1 2 3 4 5 by blast
qed


theorem drawLine_stamp_count_witness:
  "lineSteps p0 p9 3 < 2 ^ 53 \<and> (0::rat) < 3 \<and> lineDist p0 p9 = 3 * 3
   \<and> (\<exists>stamps. lineStamps p0 p9 3 = Some stamps \<and> length stamps = 10 \<and> 2 \<le> length stamps)
   \<and> lineSteps p0 p0 3 < 2 ^ 53
   \<and> (\<exists>stamps. lineStamps p0 p0 3 = Some stamps \<and> length stamps = 1)"
  using drawLine_stamp_count [of p0 p9 3] drawLine_stamp_count [of p0 p0 3]
  by (auto simp: lineSteps_p0_p9 lineSteps_p0_p0 lineDist_p0_p9)

section \<open>The region filler at whole-pixel coordinates\<close>

lemma jsadd_int: "\<bar>a + b\<bar> \<le> 2 ^ 53 \<Longrightarrow> jsadd (of_int a) (of_int b) = of_int (a + b)"
  using fl_of_int [of "a + b"] by (simp add: jsadd_def)

lemma jssub_int: "\<bar>a - b\<bar> \<le> 2 ^ 53 \<Longrightarrow> jssub (of_int a) (of_int b) = of_int (a - b)"
  using fl_of_int [of "a - b"] by (simp add: jssub_def)

lemma jsmul_int: "\<bar>a * b\<bar> \<le> 2 ^ 53 \<Longrightarrow> jsmul (of_int a) (of_int b) = of_int (a * b)"
  using fl_of_int [of "a * b"] by (simp add: jsmul_def)

lemma jsadd_nat:
  assumes "a + b \<le> 2 ^ 53"
  shows "jsadd (of_nat a) (of_nat b) = of_nat (a + b)"
proof -
  have "jsadd (of_nat a) (of_nat b) = fl (of_nat (a + b))" by (simp only: jsadd_def of_nat_add)
  then show ?thesis by (simp only: fl_of_nat [OF assms])
qed

lemma jsmul_nat:
  assumes "a * b \<le> 2 ^ 53"
  shows "jsmul (of_nat a) (of_nat b) = of_nat (a * b)"
proof -
  have "jsmul (of_nat a) (of_nat b) = fl (of_nat (a * b))" by (simp only: jsmul_def of_nat_mult)
  then show ?thesis by (simp only: fl_of_nat [OF assms])
qed

lemma channel_le: "channel d w c p \<le> 255"
proof -
  have "unat (d ! (4 * (nat (fst p) * w + nat (snd p)) + c)) < 2 ^ LENGTH(8)"
    by (rule unsigned_less)
  then show ?thesis by (simp add: channel_def)
qed

lemma pixel_index_bound:
  assumes "x < w" and "y < h"
  shows "4 * (y * w + x) + 3 < 4 * w * (h::nat)"
proof -
  have "y * w + x < Suc y * w" using assms(1) by simp
  also have "\<dots> \<le> h * w" using assms(2) by (intro mult_le_mono1) simp
  finally show ?thesis by (simp add: algebra_simps)
qed

lemma nan_add_nat:
  assumes "r + v \<le> 2 ^ 53"
  shows "nan_add (Some (of_nat r)) (Some (of_nat v)) = Some (of_nat (r + v))"
  using jsadd_nat [OF assms] by (simp add: nan_add_def)

lemma ta_get_nat:
  assumes "i < length d"
  shows "ta_get d (of_nat i) = Some (of_nat (unat (d ! i)))"
  using assms by (simp add: ta_get_def valid_index_def)

lemma ta_set_nat:
  assumes "i < length d"
  shows "ta_set d (of_nat i) v = d[i := toUint8Clamp v]"
  using assms by (simp add: ta_set_def valid_index_def)

lemma sample_one_lift:
  assumes big: "4 * w * h \<le> 2 ^ 53" and len: "length d = 4 * w * h" and top: "rtop \<le> h"
    and sums: "r + 255 \<le> 2 ^ 53" "g + 255 \<le> 2 ^ 53" "b + 255 \<le> 2 ^ 53" "Suc c \<le> 2 ^ 53"
  shows "sample_one (of_nat w) (of_nat rtop) d (of_int ny) (of_int nx) (lift (r, g, b, c)) =
     (if in_clean w rtop (ny, nx)
      then lift (r + channel d w 0 (ny, nx), g + channel d w 1 (ny, nx),
                 b + channel d w 2 (ny, nx), Suc c)
      else lift (r, g, b, c))"
proof (cases "in_clean w rtop (ny, nx)")
  case False
  then show ?thesis
    by (auto simp: sample_one_def in_clean_def)
next
  case True
  then have ny: "0 \<le> ny" "ny < int rtop" and nx: "0 \<le> nx" "nx < int w"
    by (simp_all add: in_clean_def)
  define Y where "Y = nat ny"
  define X where "X = nat nx"
  have Yn: "ny = int Y" and Xn: "nx = int X" using ny nx by (simp_all add: Y_def X_def)
  have Xw: "X < w" using nx Xn by simp
  have Yh: "Y < h" using ny Yn top by simp
  note ib = pixel_index_bound [OF Xw Yh]
  define i where "i = 4 * (Y * w + X)"
  have i3: "i + 3 < 4 * w * h" using ib by (simp add: i_def)
  have ile: "i + 3 \<le> 2 ^ 53" using i3 big by linarith
  have yw: "Y * w \<le> i" "Y * w + X \<le> i" by (simp_all add: i_def)
  have cond: "0 \<le> (of_int ny :: rat) \<and> (of_int ny :: rat) < of_nat rtop
      \<and> 0 \<le> (of_int nx :: rat) \<and> (of_int nx :: rat) < of_nat w"
    using ny nx by (metis of_int_of_nat_eq of_int_less_iff of_int_le_iff of_int_0)
  have m1: "jsmul (of_int ny) (of_nat w) = of_nat (Y * w)"
  proof -
    have "Y * w \<le> 2 ^ 53" using ile yw by linarith
    then show ?thesis using jsmul_nat [of Y w] by (simp add: Yn)
  qed
  have a1: "jsadd (of_nat (Y * w)) (of_int nx) = of_nat (Y * w + X)"
  proof -
    have "Y * w + X \<le> 2 ^ 53" using ile yw by linarith
    then show ?thesis using jsadd_nat [of "Y * w" X] by (simp add: Xn)
  qed
  have m2: "jsmul (of_nat (Y * w + X)) 4 = of_nat i"
  proof -
    have "(Y * w + X) * 4 \<le> 2 ^ 53" using ile by (simp add: i_def)
    then show ?thesis using jsmul_nat [of "Y * w + X" 4] by (simp add: i_def mult.commute)
  qed
  have p1: "jsadd (of_nat i) 1 = of_nat (i + 1)"
  proof -
    have "i + 1 \<le> 2 ^ 53" using ile by linarith
    then show ?thesis using jsadd_nat [of i 1] by simp
  qed
  have p2: "jsadd (of_nat i) 2 = of_nat (i + 2)"
  proof -
    have "i + 2 \<le> 2 ^ 53" using ile by linarith
    then show ?thesis using jsadd_nat [of i 2] by simp
  qed
  have il: "i < length d" "i + 1 < length d" "i + 2 < length d" using i3 len by linarith+
  have ch: "channel d w 0 (ny, nx) = unat (d ! i)" "channel d w 1 (ny, nx) = unat (d ! (i + 1))"
      "channel d w 2 (ny, nx) = unat (d ! (i + 2))"
    by (simp_all add: channel_def i_def Y_def X_def)
  have g0: "ta_get d (of_nat i) = Some (of_nat (channel d w 0 (ny, nx)))"
    unfolding ch using il(1) by (rule ta_get_nat)
  have g1: "ta_get d (of_nat (i + 1)) = Some (of_nat (channel d w 1 (ny, nx)))"
    unfolding ch using il(2) by (rule ta_get_nat)
  have g2: "ta_get d (of_nat (i + 2)) = Some (of_nat (channel d w 2 (ny, nx)))"
    unfolding ch using il(3) by (rule ta_get_nat)
  have s0: "nan_add (Some (of_nat r)) (Some (of_nat (channel d w 0 (ny, nx))))
      = Some (of_nat (r + channel d w 0 (ny, nx)))"
    using sums(1) channel_le [of d w 0 "(ny, nx)"] by (intro nan_add_nat) linarith
  have s1: "nan_add (Some (of_nat g)) (Some (of_nat (channel d w 1 (ny, nx))))
      = Some (of_nat (g + channel d w 1 (ny, nx)))"
    using sums(2) channel_le [of d w 1 "(ny, nx)"] by (intro nan_add_nat) linarith
  have s2: "nan_add (Some (of_nat b)) (Some (of_nat (channel d w 2 (ny, nx))))
      = Some (of_nat (b + channel d w 2 (ny, nx)))"
    using sums(3) channel_le [of d w 2 "(ny, nx)"] by (intro nan_add_nat) linarith
  have c1: "jsadd (of_nat c) 1 = of_nat (Suc c)" using sums(4) by (rule jsadd_of_nat_1)
  show ?thesis
    using True cond
    by (simp only: sample_one_def lift_def Let_def m1 a1 m2 p1 p2 g0 g1 g2 s0 s1 s2 c1
        if_True prod.case acc.simps simp_thms)
qed


lemma fold_sample_lift:
  assumes big: "4 * w * h \<le> 2 ^ 53" and len: "length d = 4 * w * h" and top: "rtop \<le> h"
    and sums: "r + 255 * length ps \<le> 2 ^ 53" "g + 255 * length ps \<le> 2 ^ 53"
      "b + 255 * length ps \<le> 2 ^ 53" "c + length ps \<le> 2 ^ 53"
  shows "fold (\<lambda>p. sample_one (of_nat w) (of_nat rtop) d (of_int (fst p)) (of_int (snd p))) ps
           (lift (r, g, b, c)) =
         lift (r + sum_list (map (channel d w 0) (filter (in_clean w rtop) ps)),
               g + sum_list (map (channel d w 1) (filter (in_clean w rtop) ps)),
               b + sum_list (map (channel d w 2) (filter (in_clean w rtop) ps)),
               c + length (filter (in_clean w rtop) ps))"
  using sums
proof (induction ps arbitrary: r g b c)
  case Nil
  then show ?case by simp
next
  case (Cons p ps)
  obtain ny nx where p: "p = (ny, nx)" by (cases p)
  have s1: "r + 255 \<le> 2 ^ 53" "g + 255 \<le> 2 ^ 53" "b + 255 \<le> 2 ^ 53" "Suc c \<le> 2 ^ 53"
    using Cons.prems by simp_all
  note one = sample_one_lift [OF big len top s1, of ny nx]
  show ?case
  proof (cases "in_clean w rtop (ny, nx)")
    case True
    have b0: "r + channel d w 0 (ny, nx) + 255 * length ps \<le> 2 ^ 53"
      using Cons.prems(1) channel_le [of d w 0 "(ny, nx)"] by simp
    have b1: "g + channel d w 1 (ny, nx) + 255 * length ps \<le> 2 ^ 53"
      using Cons.prems(2) channel_le [of d w 1 "(ny, nx)"] by simp
    have b2: "b + channel d w 2 (ny, nx) + 255 * length ps \<le> 2 ^ 53"
      using Cons.prems(3) channel_le [of d w 2 "(ny, nx)"] by simp
    have b3: "Suc c + length ps \<le> 2 ^ 53" using Cons.prems(4) by simp
    let ?F = "\<lambda>p. sample_one (of_nat w) (of_nat rtop) d (of_int (fst p)) (of_int (snd p))"
    have "fold ?F (p # ps) (lift (r, g, b, c)) =
        fold ?F ps (lift (r + channel d w 0 (ny, nx), g + channel d w 1 (ny, nx),
                          b + channel d w 2 (ny, nx), Suc c))"
      using True by (simp only: fold_simps p fst_conv snd_conv one if_True comp_apply)
    also have "\<dots> = lift (r + channel d w 0 (ny, nx)
            + sum_list (map (channel d w 0) (filter (in_clean w rtop) ps)),
          g + channel d w 1 (ny, nx) + sum_list (map (channel d w 1) (filter (in_clean w rtop) ps)),
          b + channel d w 2 (ny, nx) + sum_list (map (channel d w 2) (filter (in_clean w rtop) ps)),
          Suc c + length (filter (in_clean w rtop) ps))"
      by (rule Cons.IH [OF b0 b1 b2 b3])
    also have "\<dots> = lift (r + sum_list (map (channel d w 0) (filter (in_clean w rtop) (p # ps))),
          g + sum_list (map (channel d w 1) (filter (in_clean w rtop) (p # ps))),
          b + sum_list (map (channel d w 2) (filter (in_clean w rtop) (p # ps))),
          c + length (filter (in_clean w rtop) (p # ps)))"
      using True by (simp add: p add.assoc)
    finally show ?thesis .
  next
    case False
    have b0: "r + 255 * length ps \<le> 2 ^ 53" "g + 255 * length ps \<le> 2 ^ 53"
        "b + 255 * length ps \<le> 2 ^ 53" "c + length ps \<le> 2 ^ 53"
      using Cons.prems by simp_all
    let ?F = "\<lambda>p. sample_one (of_nat w) (of_nat rtop) d (of_int (fst p)) (of_int (snd p))"
    have "fold ?F (p # ps) (lift (r, g, b, c)) = fold ?F ps (lift (r, g, b, c))"
      using False by (simp only: fold_simps p fst_conv snd_conv one if_False comp_apply)
    also have "\<dots> = lift (r + sum_list (map (channel d w 0) (filter (in_clean w rtop) ps)),
          g + sum_list (map (channel d w 1) (filter (in_clean w rtop) ps)),
          b + sum_list (map (channel d w 2) (filter (in_clean w rtop) ps)),
          c + length (filter (in_clean w rtop) ps))"
      by (rule Cons.IH [OF b0])
    also have "\<dots> = lift (r + sum_list (map (channel d w 0) (filter (in_clean w rtop) (p # ps))),
          g + sum_list (map (channel d w 1) (filter (in_clean w rtop) (p # ps))),
          b + sum_list (map (channel d w 2) (filter (in_clean w rtop) (p # ps))),
          c + length (filter (in_clean w rtop) (p # ps)))"
      using False by (simp add: p)
    finally show ?thesis .
  qed
qed

lemma rhe_between:
  assumes "of_int m / 2 < v" and "v < (of_int m + 1) / 2"
  shows "rhe v = (m + 1) div 2"
proof (cases "even m")
  case True
  then obtain n where n: "m = 2 * n" by (elim evenE)
  have lo: "of_int n < v" and hi: "v < of_int n + 1 / 2" using assms by (simp_all add: n field_simps)
  have f: "\<lfloor>v\<rfloor> = n" using lo hi by (intro floor_unique) linarith+
  show ?thesis using hi by (simp add: rhe_def Let_def f n)
next
  case False
  then obtain n where n: "m = 2 * n + 1" by (elim oddE)
  have lo: "of_int n + 1 / 2 < v" and hi: "v < of_int n + 1" using assms by (simp_all add: n field_simps)
  have f: "\<lfloor>v\<rfloor> = n" using lo hi by (intro floor_unique) linarith+
  show ?thesis using lo by (simp add: rhe_def Let_def f n)
qed

lemma clamp_between:
  assumes "of_int m / 2 < v" and "v < (of_int m + 1) / 2"
    and "of_int m / 2 < v'" and "v' < (of_int m + 1) / 2"
  shows "toUint8Clamp (Some v) = toUint8Clamp (Some v')"
proof -
  have r: "rhe v = rhe v'" using rhe_between [OF assms(1,2)] rhe_between [OF assms(3,4)] by simp
  have z: "v \<le> 0 \<longleftrightarrow> v' \<le> 0"
  proof (cases "0 \<le> m")
    case True
    then have "(0::rat) \<le> of_int m / 2" by simp
    then show ?thesis using assms(1,3) by linarith
  next
    case False
    then have "m + 1 \<le> 0" by simp
    then have "(of_int (m + 1) :: rat) \<le> 0" by (simp only: of_int_le_0_iff)
    then have "((of_int m + 1) / 2 :: rat) \<le> 0" by simp
    then show ?thesis using assms(2,4) by linarith
  qed
  have t: "255 \<le> v \<longleftrightarrow> 255 \<le> v'"
  proof (cases "510 \<le> m")
    case True
    then have "(of_int 510 :: rat) \<le> of_int m" by (simp only: of_int_le_iff)
    then have "(255::rat) \<le> of_int m / 2" by simp
    then show ?thesis using assms(1,3) by linarith
  next
    case False
    then have "m + 1 \<le> 510" by simp
    then have "(of_int (m + 1) :: rat) \<le> of_int 510" by (simp only: of_int_le_iff)
    then have "((of_int m + 1) / 2 :: rat) \<le> 255" by simp
    then show ?thesis using assms(2,4) by linarith
  qed
  show ?thesis using r z t by (simp add: toUint8Clamp_def)
qed


lemma fl_error_small:
  assumes "0 < q" and "q \<le> 255"
  shows "\<bar>fl q - q\<bar> \<le> 1 / 2 ^ 46"
proof -
  have nz: "q \<noteq> 0" using assms(1) by simp
  have "2 powi ilog2 q \<le> \<bar>q\<bar>" using nz by (rule ilog2_bounds(1))
  also have "\<dots> < 2 powi 8" using assms by simp
  finally have "ilog2 q < 8" by (rule powi2_less)
  then have "ilog2 q - 53 \<le> - 46" by simp
  then have "(2::rat) powi (ilog2 q - 53) \<le> 2 powi (- 46)" by (rule powi2_mono)
  also have "\<dots> = 1 / 2 ^ 46" by (simp add: power_int_minus_divide)
  finally show ?thesis using fl_error [OF nz] by linarith
qed

lemma mean_fl:
  assumes c: "0 < c" "c \<le> 9" and r: "r \<le> 255 * c"
  shows "toUint8Clamp (Some (jsdiv (of_nat r) (of_nat c)))
       = toUint8Clamp (Some (of_nat r / of_nat c))"
proof (cases "r = 0")
  case True
  then show ?thesis by (simp add: jsdiv_def fl_zero)
next
  case False
  define q :: rat where "q = of_nat r / of_nat c"
  have cpos: "(0::rat) < of_nat c" using c(1) by simp
  have c9: "(of_nat c :: rat) \<le> 9" using c(2) by (metis of_nat_le_iff of_nat_numeral)
  have qpos: "0 < q" using False cpos by (simp add: q_def)
  have "(of_nat r :: rat) \<le> of_nat (255 * c)" using r by (simp only: of_nat_le_iff)
  then have q255: "q \<le> 255" using cpos by (simp add: q_def field_simps)
  define m where "m = \<lfloor>2 * q\<rfloor>"
  have mlo: "of_int m \<le> 2 * q" and mhi: "2 * q < of_int m + 1" unfolding m_def by linarith+
  have qc: "q * of_nat c = of_nat r" using cpos by (simp add: q_def)
  show ?thesis
  proof (cases "of_int m = 2 * q")
    case True
    have m0: "0 \<le> m" using qpos by (simp add: m_def)
    have "(of_int m :: rat) \<le> of_int 510" using True q255 by simp
    then have "m \<le> 510" by (simp only: of_int_le_iff)
    then have "\<bar>m\<bar> \<le> 2 ^ 53" using m0 by simp
    then have "fl (of_int m * 2 powi (- 1)) = of_int m * 2 powi (- 1)" by (rule fl_exact)
    moreover have "of_int m * 2 powi (- 1) = q" using True by (simp add: power_int_minus_divide)
    ultimately have "fl q = q" by simp
    then show ?thesis by (simp add: jsdiv_def q_def)
  next
    case False
    then have lt: "of_int m < 2 * q" using mlo by linarith
    have "of_int m * of_nat c < 2 * q * (of_nat c :: rat)"
      using lt cpos by (rule mult_strict_right_mono)
    then have "(of_int (m * int c) :: rat) < of_int (2 * int r)"
      by (simp add: qc mult.assoc)
    then have "m * int c < 2 * int r" by (simp only: of_int_less_iff)
    then have "m * int c + 1 \<le> 2 * int r" by simp
    then have "(of_int (m * int c + 1) :: rat) \<le> of_int (2 * int r)" by (simp only: of_int_le_iff)
    then have "of_int m * of_nat c + 1 \<le> 2 * q * (of_nat c :: rat)"
      by (simp add: qc mult.assoc)
    then have "of_int m + 1 / of_nat c \<le> 2 * q" using cpos by (simp add: field_simps)
    moreover have "(1::rat) / 9 \<le> 1 / of_nat c" using cpos c9 by (simp add: field_simps)
    ultimately have lo: "of_int m / 2 + 1 / 18 \<le> q" by linarith
    have "2 * q * (of_nat c :: rat) < (of_int m + 1) * of_nat c"
      using mhi cpos by (rule mult_strict_right_mono)
    then have "(of_int (2 * int r) :: rat) < of_int ((m + 1) * int c)"
      by (simp add: qc mult.assoc)
    then have "2 * int r < (m + 1) * int c" by (simp only: of_int_less_iff)
    then have "2 * int r + 1 \<le> (m + 1) * int c" by simp
    then have "(of_int (2 * int r + 1) :: rat) \<le> of_int ((m + 1) * int c)"
      by (simp only: of_int_le_iff)
    then have "2 * q * (of_nat c :: rat) + 1 \<le> (of_int m + 1) * of_nat c"
      by (simp add: qc mult.assoc)
    then have "2 * q + 1 / of_nat c \<le> of_int m + 1" using cpos by (simp add: field_simps)
    moreover have "(1::rat) / 9 \<le> 1 / of_nat c" using cpos c9 by (simp add: field_simps)
    ultimately have hi': "q \<le> of_int m / 2 + 1 / 2 - 1 / 18" by linarith
    have half: "((of_int m + 1) / 2 :: rat) = of_int m / 2 + 1 / 2" by (simp add: add_divide_distrib)
    have hi: "q \<le> (of_int m + 1) / 2 - 1 / 18" unfolding half using hi' .
    have e: "\<bar>fl q - q\<bar> \<le> 1 / 2 ^ 46" using qpos q255 by (rule fl_error_small)
    have small: "(1::rat) / 2 ^ 46 < 1 / 18" by simp
    have 1: "of_int m / 2 < fl q" using lo e small by linarith
    have 2: "fl q < (of_int m + 1) / 2" unfolding half using hi' e small by linarith
    have 3: "of_int m / 2 < q" using lo by linarith
    have 4: "q < (of_int m + 1) / 2" unfolding half using hi' by linarith
    show ?thesis unfolding jsdiv_def q_def [symmetric] using 1 2 3 4 by (rule clamp_between)
  qed
qed


lemma sum_channel_le: "sum_list (map (channel d w c) ns) \<le> 255 * length ns"
proof (induction ns)
  case Nil
  then show ?case by simp
next
  case (Cons p ns)
  then show ?case using channel_le [of d w c p] by simp
qed

lemma sample_exact:
  assumes big: "4 * w * h \<le> 2 ^ 53" and len: "length d = 4 * w * h" and top: "rtop \<le> h"
    and X: "int X + 1 \<le> 2 ^ 53" and sR: "0 \<le> sR" "sR + 1 \<le> 2 ^ 53"
  shows "sample (of_nat w) (of_nat rtop) d (of_int sR) (of_nat X) =
     (let ns = filter (in_clean w rtop)
                 (List.product [sR - 1, sR, sR + 1] [int X - 1, int X, int X + 1])
      in lift (sum_list (map (channel d w 0) ns), sum_list (map (channel d w 1) ns),
               sum_list (map (channel d w 2) ns), length ns))"
proof -
  let ?F = "\<lambda>p. sample_one (of_nat w) (of_nat rtop) d (of_int (fst p)) (of_int (snd p))"
  let ?ps = "List.product [sR - 1, sR, sR + 1] [int X - 1, int X, int X + 1]"
  have y: "jsadd (of_int sR) (- 1) = of_int (sR - 1)" "jsadd (of_int sR) 0 = of_int sR"
      "jsadd (of_int sR) 1 = of_int (sR + 1)"
    using sR jsadd_int [of sR "- 1"] jsadd_int [of sR 0] jsadd_int [of sR 1] by simp_all
  have x: "jsadd (of_nat X) (- 1) = of_int (int X - 1)" "jsadd (of_nat X) 0 = of_int (int X)"
      "jsadd (of_nat X) 1 = of_int (int X + 1)"
    using X jsadd_int [of "int X" "- 1"] jsadd_int [of "int X" 0] jsadd_int [of "int X" 1]
    by simp_all
  have lift0: "lift (0, 0, 0, 0) = \<lparr> accR = Some 0, accG = Some 0, accB = Some 0, accCount = 0 \<rparr>"
    by (simp add: lift_def)
  have "sample (of_nat w) (of_nat rtop) d (of_int sR) (of_nat X) = fold ?F ?ps (lift (0, 0, 0, 0))"
    by (simp only: sample_def fold_simps comp_apply id_apply y x List.product.simps list.map
        append.simps fst_conv snd_conv lift0)
  also have "\<dots> = lift (0 + sum_list (map (channel d w 0) (filter (in_clean w rtop) ?ps)),
      0 + sum_list (map (channel d w 1) (filter (in_clean w rtop) ?ps)),
      0 + sum_list (map (channel d w 2) (filter (in_clean w rtop) ?ps)),
      0 + length (filter (in_clean w rtop) ?ps))"
    by (rule fold_sample_lift [OF big len top]) simp_all
  finally show ?thesis by (simp add: Let_def)
qed

lemma neighbours_le: "length (neighbours w rtop x y) \<le> 9"
proof -
  have "length (neighbours w rtop x y) \<le>
      length (List.product [sourceRow rtop y - 1, sourceRow rtop y, sourceRow rtop y + 1]
                [int x - 1, int x, int x + 1])"
    unfolding neighbours_def by (rule length_filter_le)
  then show ?thesis by simp
qed

lemma fill_pixel_exact:
  assumes big: "4 * w * h \<le> 2 ^ 53" and len: "length d = 4 * w * h"
    and Y: "rtop \<le> Y" "Y < h" and X: "X < w"
  shows "fill_pixel (of_nat w) (of_nat rtop) (of_nat Y) (of_nat X) d =
     (let ns = neighbours w rtop X Y; i = 4 * (Y * w + X)
      in if ns \<noteq> []
         then d[i := mean_byte d w ns 0, i + 1 := mean_byte d w ns 1,
                i + 2 := mean_byte d w ns 2, i + 3 := 255]
         else d)"
proof -
  define i where "i = 4 * (Y * w + X)"
  define ns where "ns = neighbours w rtop X Y"
  note ib = pixel_index_bound [OF X Y(2)]
  have i3: "i + 3 < 4 * w * h" using ib by (simp add: i_def)
  have ile: "i + 3 \<le> 2 ^ 53" using i3 big by linarith
  have yw: "Y * w \<le> i" "Y * w + X \<le> i" by (simp_all add: i_def)
  have top: "rtop \<le> h" using Y by linarith
  have idx: "jsmul (jsadd (jsmul (of_nat Y) (of_nat w)) (of_nat X)) 4 = of_nat i"
  proof -
    have a: "Y * w \<le> 2 ^ 53" "Y * w + X \<le> 2 ^ 53" "(Y * w + X) * 4 \<le> 2 ^ 53"
      using ile yw by (simp_all add: i_def)
    show ?thesis
      using jsmul_nat [OF a(1)] jsadd_nat [OF a(2)] jsmul_nat [OF a(3)]
      by (simp add: i_def mult.commute)
  qed
  have w1: "1 \<le> w" using X by simp
  have hw: "h \<le> w * h" using w1 by simp
  have hw4: "w * h \<le> 4 * w * h" by simp
  have hle: "h \<le> 2 ^ 53" using hw hw4 big by linarith
  have Yle: "int Y < 2 ^ 53" "int rtop \<le> int Y" "0 \<le> int rtop" using Y hle by simp_all
  have b1: "\<bar>int Y - int rtop\<bar> \<le> 2 ^ 53" using Yle by linarith
  have b2: "\<bar>int rtop - (int Y - int rtop)\<bar> \<le> 2 ^ 53" using Yle by linarith
  have b3: "\<bar>int rtop - (int Y - int rtop) - 1\<bar> \<le> 2 ^ 53" using Yle by linarith
  have s1: "jssub (of_nat Y) (of_nat rtop) = of_int (int Y - int rtop)"
    using jssub_int [OF b1] by (simp only: of_int_of_nat_eq)
  have s2: "jssub (of_nat rtop) (of_int (int Y - int rtop)) = of_int (int rtop - (int Y - int rtop))"
    using jssub_int [OF b2] by (simp only: of_int_of_nat_eq)
  have s3: "jssub (of_int (int rtop - (int Y - int rtop))) 1
      = of_int (int rtop - (int Y - int rtop) - 1)"
    using jssub_int [of "int rtop - (int Y - int rtop)" 1] b3 by (simp only: of_int_1)
  have s4: "max 0 (of_int (int rtop - (int Y - int rtop) - 1) :: rat) = of_int (sourceRow rtop Y)"
    unfolding sourceRow_def by (simp only: of_int_max of_int_0)
  have sR: "0 \<le> sourceRow rtop Y" "sourceRow rtop Y + 1 \<le> 2 ^ 53" "int X + 1 \<le> 2 ^ 53"
    using Yle X ile yw by (simp_all add: sourceRow_def i_def)
  have sRr: "(0::rat) \<le> of_int (sourceRow rtop Y)" using sR(1) by (simp only: of_int_0_le_iff)
  define S where "S c = sum_list (map (channel d w c) ns)" for c
  have a: "sample (of_nat w) (of_nat rtop) d (of_int (sourceRow rtop Y)) (of_nat X)
      = lift (S 0, S 1, S 2, length ns)"
    using sample_exact [OF big len top sR(3) sR(1) sR(2)]
    by (simp only: Let_def ns_def neighbours_def S_def)
  have acc: "accR (lift (S 0, S 1, S 2, length ns)) = Some (of_nat (S 0))"
      "accG (lift (S 0, S 1, S 2, length ns)) = Some (of_nat (S 1))"
      "accB (lift (S 0, S 1, S 2, length ns)) = Some (of_nat (S 2))"
      "accCount (lift (S 0, S 1, S 2, length ns)) = of_nat (length ns)"
    by (simp_all add: lift_def)
  have p: "jsadd (of_nat i) 1 = of_nat (i + 1)" "jsadd (of_nat i) 2 = of_nat (i + 2)"
      "jsadd (of_nat i) 3 = of_nat (i + 3)"
    using ile jsadd_nat [of i 1] jsadd_nat [of i 2] jsadd_nat [of i 3] by simp_all
  have unfolded: "fill_pixel (of_nat w) (of_nat rtop) (of_nat Y) (of_nat X) d =
      (if (0::rat) < of_nat (length ns)
       then ta_set (ta_set (ta_set (ta_set d (of_nat i)
                (nan_div (Some (of_nat (S 0))) (of_nat (length ns))))
              (of_nat (i + 1)) (nan_div (Some (of_nat (S 1))) (of_nat (length ns))))
            (of_nat (i + 2)) (nan_div (Some (of_nat (S 2))) (of_nat (length ns))))
          (of_nat (i + 3)) (Some 255)
       else d)"
    by (simp only: fill_pixel_def Let_def idx s1 s2 s3 s4 sRr if_True a acc p)
  show ?thesis
  proof (cases "ns = []")
    case True
    then show ?thesis unfolding unfolded by (simp add: ns_def [symmetric] Let_def)
  next
    case False
    then have n: "0 < length ns" by simp
    have n9: "length ns \<le> 9" unfolding ns_def by (rule neighbours_le)
    have m: "toUint8Clamp (nan_div (Some (of_nat (S c))) (of_nat (length ns))) = mean_byte d w ns c"
      for c
      using mean_fl [OF n n9 sum_channel_le [of d w c ns]]
      by (simp add: nan_div_def mean_byte_def S_def)
    have l: "i < length d" "i + 1 < length d" "i + 2 < length d" "i + 3 < length d"
      using i3 len by linarith+
    have t255: "toUint8Clamp (Some 255) = 255" by (simp add: toUint8Clamp_def)
    have npos: "(0::rat) < of_nat (length ns)" using n by simp
    have t0: "ta_set d (of_nat i) v = d[i := toUint8Clamp v]" for v
      using l(1) by (rule ta_set_nat)
    have t1: "ta_set (d[i := a]) (of_nat (i + 1)) v = d[i := a, i + 1 := toUint8Clamp v]" for a v
      by (rule ta_set_nat) (use l in simp)
    have t2: "ta_set (d[i := a, i + 1 := b]) (of_nat (i + 2)) v
        = d[i := a, i + 1 := b, i + 2 := toUint8Clamp v]" for a b v
      by (rule ta_set_nat) (use l in simp)
    have t3: "ta_set (d[i := a, i + 1 := b, i + 2 := c]) (of_nat (i + 3)) v
        = d[i := a, i + 1 := b, i + 2 := c, i + 3 := toUint8Clamp v]" for a b c v
      by (rule ta_set_nat) (use l in simp)
    have "fill_pixel (of_nat w) (of_nat rtop) (of_nat Y) (of_nat X) d =
        d[i := mean_byte d w ns 0, i + 1 := mean_byte d w ns 1,
          i + 2 := mean_byte d w ns 2, i + 3 := 255]"
      unfolding unfolded by (simp only: npos if_True t0 t1 t2 t3 m t255)
    moreover have "neighbours w rtop X Y = [] \<longleftrightarrow> False" using False by (simp add: ns_def)
    ultimately show ?thesis
      unfolding ns_def i_def by (simp only: Let_def not_False_eq_True if_True)
  qed
qed

section \<open>The region filler: the loops\<close>

lemma loop_x_run:
  assumes "w \<le> 2 ^ 53" and "X \<le> w"
  shows "loop_x (of_nat w) sy y (of_nat X) d =
         Some (fold (\<lambda>x d'. fill_pixel (of_nat w) sy y (of_nat x) d') [X ..< w] d)"
  using assms(2)
proof (induction "w - X" arbitrary: X d)
  case 0
  then have "X = w" by simp
  then show ?case by (subst loop_x.simps) simp
next
  case (Suc n)
  then have lt: "X < w" by linarith
  then have c: "(of_nat X :: rat) < of_nat w" by (simp only: of_nat_less_iff)
  have "Suc X \<le> 2 ^ 53" using lt assms(1) by linarith
  then have j: "jsadd (of_nat X) 1 = of_nat (Suc X)" by (rule jsadd_of_nat_1)
  have n: "n = w - Suc X" using Suc.hyps(2) by linarith
  have le: "Suc X \<le> w" using lt by simp
  have up: "[X ..< w] = X # [Suc X ..< w]" using lt by (rule upt_conv_Cons)
  have "loop_x (of_nat w) sy y (of_nat X) d =
      loop_x (of_nat w) sy y (jsadd (of_nat X) 1) (fill_pixel (of_nat w) sy y (of_nat X) d)"
    by (subst loop_x.simps) (simp only: c if_True)
  also have "\<dots> = Some (fold (\<lambda>x d'. fill_pixel (of_nat w) sy y (of_nat x) d') [Suc X ..< w]
      (fill_pixel (of_nat w) sy y (of_nat X) d))"
    unfolding j by (rule Suc.hyps(1) [OF n le])
  also have "\<dots> = Some (fold (\<lambda>x d'. fill_pixel (of_nat w) sy y (of_nat x) d') [X ..< w] d)"
    unfolding up by simp
  finally show ?case .
qed

lemma loop_y_run:
  assumes "w \<le> 2 ^ 53" and "h \<le> 2 ^ 53" and "L \<le> w" and "Y \<le> h"
  shows "loop_y (of_nat w) (of_nat h) (of_nat L) sy (of_nat Y) d =
         Some (fold (\<lambda>y d'. fold (\<lambda>x d''. fill_pixel (of_nat w) sy (of_nat y) (of_nat x) d'')
                                    [L ..< w] d') [Y ..< h] d)"
  using assms(4)
proof (induction "h - Y" arbitrary: Y d)
  case 0
  then have "Y = h" by simp
  then show ?case by (subst loop_y.simps) simp
next
  case (Suc n)
  then have lt: "Y < h" by linarith
  then have c: "(of_nat Y :: rat) < of_nat h" by (simp only: of_nat_less_iff)
  have "Suc Y \<le> 2 ^ 53" using lt assms(2) by linarith
  then have j: "jsadd (of_nat Y) 1 = of_nat (Suc Y)" by (rule jsadd_of_nat_1)
  have n: "n = h - Suc Y" using Suc.hyps(2) by linarith
  have le: "Suc Y \<le> h" using lt by simp
  have up: "[Y ..< h] = Y # [Suc Y ..< h]" using lt by (rule upt_conv_Cons)
  let ?row = "\<lambda>y d'. fold (\<lambda>x d''. fill_pixel (of_nat w) sy (of_nat y) (of_nat x) d'') [L ..< w] d'"
  have "loop_y (of_nat w) (of_nat h) (of_nat L) sy (of_nat Y) d =
      Option.bind (loop_x (of_nat w) sy (of_nat Y) (of_nat L) d)
        (\<lambda>d'. loop_y (of_nat w) (of_nat h) (of_nat L) sy (jsadd (of_nat Y) 1) d')"
    by (subst loop_y.simps) (simp only: c if_True)
  also have "\<dots> = loop_y (of_nat w) (of_nat h) (of_nat L) sy (of_nat (Suc Y)) (?row Y d)"
    unfolding j loop_x_run [OF assms(1,3)] by simp
  also have "\<dots> = Some (fold ?row [Suc Y ..< h] (?row Y d))"
    by (rule Suc.hyps(1) [OF n le])
  also have "\<dots> = Some (fold ?row [Y ..< h] d)"
    unfolding up by simp
  finally show ?case .
qed

section \<open>The region filler: in-place filling equals the pure function\<close>

lemma fill_step_length [simp]: "length (fill_step w rtop d p) = length d"
  by (simp add: fill_step_def Let_def)

lemma fill_pixel_step:
  assumes "4 * w * h \<le> 2 ^ 53" and "length d = 4 * w * h"
    and "rtop \<le> y" and "y < h" and "x < w"
  shows "fill_pixel (of_nat w) (of_nat rtop) (of_nat y) (of_nat x) d = fill_step w rtop d (x, y)"
  using fill_pixel_exact [OF assms] by (simp add: fill_step_def)

lemma row_fold_step:
  assumes big: "4 * w * h \<le> 2 ^ 53" and y: "rtop \<le> y" "y < h"
    and xs: "\<forall>x \<in> set xs. x < w" and len: "length d = 4 * w * h"
  shows "fold (\<lambda>x d'. fill_pixel (of_nat w) (of_nat rtop) (of_nat y) (of_nat x) d') xs d
       = fold (\<lambda>p d'. fill_step w rtop d' p) (map (\<lambda>x. (x, y)) xs) d"
  using xs len
proof (induction xs arbitrary: d)
  case Nil
  then show ?case by simp
next
  case (Cons x xs)
  have x: "x < w" and rest: "\<forall>x \<in> set xs. x < w" using Cons.prems(1) by simp_all
  have one: "fill_pixel (of_nat w) (of_nat rtop) (of_nat y) (of_nat x) d = fill_step w rtop d (x, y)"
    using big Cons.prems(2) y x by (rule fill_pixel_step)
  have l: "length (fill_step w rtop d (x, y)) = 4 * w * h" using Cons.prems(2) by simp
  show ?case using Cons.IH [OF rest l] by (simp add: one)
qed

lemma fold_fill_step_length [simp]:
  "length (fold (\<lambda>p d'. fill_step w rtop d' p) ps d) = length d"
  by (induction ps arbitrary: d) simp_all

lemma rows_fold_step:
  assumes big: "4 * w * h \<le> 2 ^ 53"
    and ys: "\<forall>y \<in> set ys. rtop \<le> y \<and> y < h"
    and xs: "\<forall>x \<in> set xs. x < w" and len: "length d = 4 * w * h"
  shows "fold (\<lambda>y d'. fold (\<lambda>x d''. fill_pixel (of_nat w) (of_nat rtop) (of_nat y) (of_nat x) d'')
                         xs d') ys d
       = fold (\<lambda>p d'. fill_step w rtop d' p) (concat (map (\<lambda>y. map (\<lambda>x. (x, y)) xs) ys)) d"
  using ys len
proof (induction ys arbitrary: d)
  case Nil
  then show ?case by simp
next
  case (Cons y ys)
  have y: "rtop \<le> y" "y < h" and rest: "\<forall>y \<in> set ys. rtop \<le> y \<and> y < h"
    using Cons.prems(1) by simp_all
  note row = row_fold_step [OF big y xs Cons.prems(2)]
  have l: "length (fold (\<lambda>p d'. fill_step w rtop d' p) (map (\<lambda>x. (x, y)) xs) d) = 4 * w * h"
    using Cons.prems(2) by simp
  show ?case using Cons.IH [OF rest l] by (simp add: row)
qed


lemma px_decode:
  assumes "x < (w::nat)" and "c < (4::nat)"
  shows "(4 * (y * w + x) + c) div 4 = y * w + x" and "(y * w + x) mod w = x"
    and "(y * w + x) div w = y" and "(4 * (y * w + x) + c) mod 4 = c"
proof -
  have a: "(4 * n + c) div 4 = n" "(4 * n + c) mod 4 = c" for n using assms(2) by simp_all
  show "(4 * (y * w + x) + c) div 4 = y * w + x" by (rule a(1))
  show "(4 * (y * w + x) + c) mod 4 = c" by (rule a(2))
  show "(y * w + x) mod w = x" "(y * w + x) div w = y" using assms(1) by simp_all
qed

lemma px_encode: "(j div 4) div w * w + (j div 4) mod w = j div (4::nat)"
  by simp

lemma neighbours_above:
  assumes "p \<in> set (neighbours w rtop x y)" and "c < 4"
  shows "4 * (nat (fst p) * w + nat (snd p)) + c < 4 * rtop * w"
proof -
  have cl: "in_clean w rtop p"
    using assms(1) unfolding neighbours_def by (simp only: set_filter mem_Collect_eq)
  then have a: "nat (snd p) < w" "nat (fst p) < rtop" by (auto simp: in_clean_def)
  have "4 * (nat (fst p) * w + nat (snd p)) + 3 < 4 * w * rtop" using a by (rule pixel_index_bound)
  then show ?thesis using assms(2) by (simp add: mult.commute mult.left_commute)
qed

lemma mean_byte_agree:
  assumes "\<forall>i < 4 * rtop * w. d' ! i = d ! i" and "c < 4"
  shows "mean_byte d' w (neighbours w rtop x y) c = mean_byte d w (neighbours w rtop x y) c"
proof -
  have "map (channel d' w c) (neighbours w rtop x y) = map (channel d w c) (neighbours w rtop x y)"
  proof (rule map_cong [OF refl])
    fix p assume "p \<in> set (neighbours w rtop x y)"
    then have "4 * (nat (fst p) * w + nat (snd p)) + c < 4 * rtop * w"
      using assms(2) by (rule neighbours_above)
    then show "channel d' w c p = channel d w c p" using assms(1) by (simp add: channel_def)
  qed
  then show ?thesis unfolding mean_byte_def by (simp only:)
qed

lemma fill_step_inv:
  assumes len: "length d = 4 * w * h" and l': "length d' = length d"
    and inv: "\<forall>j < length d. d' ! j =
        (if ((j div 4) mod w, (j div 4) div w) \<in> S then filled_byte d w h j else d ! j)"
    and S: "\<forall>p \<in> S. in_rect w h (fst p) (snd p)"
    and p: "in_rect w h x y"
  shows "\<forall>j < length d. fill_step w (rectTop h) d' (x, y) ! j =
        (if ((j div 4) mod w, (j div 4) div w) \<in> insert (x, y) S
         then filled_byte d w h j else d ! j)"
proof (intro allI impI)
  fix j assume j: "j < length d"
  define rtop where "rtop = rectTop h"
  define ns where "ns = neighbours w rtop x y"
  define i where "i = 4 * (y * w + x)"
  have xy: "x < w" "y < h" "rtop \<le> y" using p by (simp_all add: in_rect_def rtop_def)
  have top: "rtop \<le> h" using xy by linarith
  have agree: "\<forall>k < 4 * rtop * w. d' ! k = d ! k"
  proof (intro allI impI)
    fix k assume k: "k < 4 * rtop * w"
    have "4 * rtop * w \<le> 4 * w * h" using top by (simp add: mult.commute)
    then have kl: "k < length d" using k len by linarith
    have "k div 4 < rtop * w" using k by (simp add: less_mult_imp_div_less mult.commute mult.left_commute)
    then have "(k div 4) div w < rtop" by (simp add: less_mult_imp_div_less)
    then have "\<not> in_rect w h ((k div 4) mod w) ((k div 4) div w)" by (simp add: in_rect_def rtop_def)
    then have "((k div 4) mod w, (k div 4) div w) \<notin> S" using S by auto
    then show "d' ! k = d ! k" using inv kl by simp
  qed
  have i3: "i + 3 < length d" using pixel_index_bound [OF xy(1,2)] len by (simp add: i_def)
  show "fill_step w (rectTop h) d' (x, y) ! j =
        (if ((j div 4) mod w, (j div 4) div w) \<in> insert (x, y) S
         then filled_byte d w h j else d ! j)"
  proof (cases "j div 4 = y * w + x")
    case True
    define c where "c = j mod 4"
    have c4: "c < 4" by (simp add: c_def)
    have "4 * (j div 4) + j mod 4 = j" by (rule mult_div_mod_eq)
    then have jc: "j = i + c" unfolding True i_def c_def by simp
    have px: "(j div 4) mod w = x" "(j div 4) div w = y" using True xy(1) by simp_all
    have fb: "filled_byte d w h j =
        (if ns \<noteq> [] then (if c = 3 then 255 else mean_byte d w ns c) else d ! j)"
      using p by (simp add: filled_byte_def Let_def px c_def ns_def rtop_def)
    show ?thesis
    proof (cases "ns = []")
      case True
      have "fill_step w (rectTop h) d' (x, y) = d'"
        using True by (simp add: fill_step_def Let_def ns_def rtop_def)
      moreover have "d' ! j = d ! j" using inv j fb True by (simp add: px)
      ultimately show ?thesis using fb True by (simp add: px)
    next
      case False
      have fs: "fill_step w (rectTop h) d' (x, y) =
          d'[i := mean_byte d' w ns 0, i + 1 := mean_byte d' w ns 1,
             i + 2 := mean_byte d' w ns 2, i + 3 := 255]"
        using False by (simp add: fill_step_def Let_def ns_def rtop_def i_def)
      have ma: "mean_byte d' w ns k = mean_byte d w ns k" if "k < 4" for k
        unfolding ns_def using agree that by (rule mean_byte_agree)
      have "c = 0 \<or> c = 1 \<or> c = 2 \<or> c = 3" using c4 by linarith
      then have "fill_step w (rectTop h) d' (x, y) ! j = (if c = 3 then 255 else mean_byte d w ns c)"
        using i3 l' by (auto simp: fs jc ma)
      then show ?thesis using fb False by (simp add: px)
    qed
  next
    case False
    have ne: "j \<noteq> i" "j \<noteq> i + 1" "j \<noteq> i + 2" "j \<noteq> i + 3"
      using False by (auto simp: i_def)
    have same: "fill_step w (rectTop h) d' (x, y) ! j = d' ! j"
    proof (cases "ns = []")
      case True
      then show ?thesis by (simp add: fill_step_def Let_def ns_def rtop_def)
    next
      case False
      have fs: "fill_step w (rectTop h) d' (x, y) =
          d'[i := mean_byte d' w ns 0, i + 1 := mean_byte d' w ns 1,
             i + 2 := mean_byte d' w ns 2, i + 3 := 255]"
        using False by (simp add: fill_step_def Let_def ns_def rtop_def i_def)
      show ?thesis using ne by (simp add: fs)
    qed
    have "((j div 4) mod w, (j div 4) div w) \<noteq> (x, y)"
    proof
      assume "((j div 4) mod w, (j div 4) div w) = (x, y)"
      then have "(j div 4) div w * w + (j div 4) mod w = y * w + x" by simp
      then show False using False by (simp only: px_encode)
    qed
    then have "(((j div 4) mod w, (j div 4) div w) \<in> insert (x, y) S)
        = (((j div 4) mod w, (j div 4) div w) \<in> S)" by blast
    moreover have "d' ! j =
        (if ((j div 4) mod w, (j div 4) div w) \<in> S then filled_byte d w h j else d ! j)"
      using inv j by blast
    ultimately show ?thesis using same by (simp only:)
  qed
qed


lemma fold_fill_step_inv:
  assumes len: "length d = 4 * w * h"
    and ps: "\<forall>p \<in> set ps. in_rect w h (fst p) (snd p)"
    and l': "length d' = length d"
    and inv: "\<forall>j < length d. d' ! j =
        (if ((j div 4) mod w, (j div 4) div w) \<in> S then filled_byte d w h j else d ! j)"
    and S: "\<forall>p \<in> S. in_rect w h (fst p) (snd p)"
  shows "\<forall>j < length d. fold (\<lambda>p d'. fill_step w (rectTop h) d' p) ps d' ! j =
        (if ((j div 4) mod w, (j div 4) div w) \<in> S \<union> set ps
         then filled_byte d w h j else d ! j)"
  using ps l' inv S
proof (induction ps arbitrary: d' S)
  case Nil
  then show ?case by simp
next
  case (Cons p ps)
  obtain x y where p: "p = (x, y)" by (cases p)
  have pr: "in_rect w h x y" using Cons.prems(1) by (simp add: p)
  have rest: "\<forall>p \<in> set ps. in_rect w h (fst p) (snd p)" using Cons.prems(1) by simp
  have l2: "length (fill_step w (rectTop h) d' p) = length d" using Cons.prems(2) by simp
  have i2: "\<forall>j < length d. fill_step w (rectTop h) d' p ! j =
        (if ((j div 4) mod w, (j div 4) div w) \<in> insert p S
         then filled_byte d w h j else d ! j)"
    unfolding p using len Cons.prems(2) Cons.prems(3) Cons.prems(4) pr by (rule fill_step_inv)
  have S2: "\<forall>q \<in> insert p S. in_rect w h (fst q) (snd q)" using Cons.prems(4) pr by (simp add: p)
  have "\<forall>j < length d. fold (\<lambda>p d'. fill_step w (rectTop h) d' p) ps
          (fill_step w (rectTop h) d' p) ! j =
        (if ((j div 4) mod w, (j div 4) div w) \<in> insert p S \<union> set ps
         then filled_byte d w h j else d ! j)"
    using rest l2 i2 S2 by (rule Cons.IH)
  then show ?case by simp
qed

lemma set_rect_pixels: "set (rect_pixels w h) = {(x, y). in_rect w h x y}"
  by (auto simp: rect_pixels_def in_rect_def)

lemma fold_fill_step_pure:
  assumes len: "length d = 4 * w * h"
  shows "fold (\<lambda>p d'. fill_step w (rectTop h) d' p) (rect_pixels w h) d = fill_pure w h d"
proof (rule nth_equalityI)
  show "length (fold (\<lambda>p d'. fill_step w (rectTop h) d' p) (rect_pixels w h) d)
      = length (fill_pure w h d)"
    by (simp add: fill_pure_def)
next
  fix j assume "j < length (fold (\<lambda>p d'. fill_step w (rectTop h) d' p) (rect_pixels w h) d)"
  then have j: "j < length d" by simp
  have ps: "\<forall>p \<in> set (rect_pixels w h). in_rect w h (fst p) (snd p)"
    by (auto simp: set_rect_pixels)
  have "\<forall>j < length d. fold (\<lambda>p d'. fill_step w (rectTop h) d' p) (rect_pixels w h) d ! j =
        (if ((j div 4) mod w, (j div 4) div w) \<in> {} \<union> set (rect_pixels w h)
         then filled_byte d w h j else d ! j)"
    using len ps by (rule fold_fill_step_inv) simp_all
  then have "fold (\<lambda>p d'. fill_step w (rectTop h) d' p) (rect_pixels w h) d ! j =
        (if in_rect w h ((j div 4) mod w) ((j div 4) div w) then filled_byte d w h j else d ! j)"
    using j by (simp add: set_rect_pixels)
  also have "\<dots> = filled_byte d w h j" by (simp add: filled_byte_def Let_def)
  also have "\<dots> = fill_pure w h d ! j" using j by (simp add: fill_pure_def)
  finally show "fold (\<lambda>p d'. fill_step w (rectTop h) d' p) (rect_pixels w h) d ! j
      = fill_pure w h d ! j" .
qed

section \<open>The region filler: whole-pixel rectangles\<close>

lemma c015_value: "fl (3 / 20) = 5404319552844595 / 36028797018963968"
  by code_simp

lemma c025_value: "fl (1 / 4) = 1 / 4"
proof -
  have "fl (of_int 1 * 2 powi (- 2)) = of_int 1 * 2 powi (- 2)" by (rule fl_exact) simp
  then show ?thesis by (simp add: power_int_minus_divide)
qed

lemma height_multiples:
  "list_all (\<lambda>k. fl (rat_of_int (20 * k) * (5404319552844595 / 36028797018963968))
                   = rat_of_int (3 * k)) [1 .. 33]"
  by code_simp

lemma fl_ge:
  assumes "of_int n \<le> x" and "\<bar>n\<bar> \<le> 2 ^ 53"
  shows "of_int n \<le> fl x"
proof -
  have "fl (of_int n) \<le> fl x" using assms(1) by (rule fl_mono)
  then show ?thesis using fl_of_int [OF assms(2)] by simp
qed

lemma watermarkWidth_whole:
  assumes "4 dvd w \<or> 600 \<le> w" and "w \<le> 2 ^ 53"
  shows "watermarkWidth w = of_nat (rectW w)"
proof (cases "600 \<le> w")
  case True
  have "(of_int 150 :: rat) \<le> of_nat w * (1 / 4)" using True by simp
  then have "of_int 150 \<le> fl (of_nat w * (1 / 4))" by (rule fl_ge) simp
  then show ?thesis using True by (simp add: watermarkWidth_def jsmul_def c025_value rectW_def)
next
  case False
  then have "4 dvd w" using assms(1) by simp
  then obtain k where k: "w = 4 * k" by (elim dvdE)
  have "k \<le> 2 ^ 53" using assms(2) k by simp
  then have "fl (of_nat k) = of_nat k" by (rule fl_of_nat)
  moreover have "(of_nat w :: rat) * (1 / 4) = of_nat k" by (simp add: k)
  moreover have "k < 150" using False k by simp
  ultimately show ?thesis using False
    by (simp add: watermarkWidth_def jsmul_def c025_value rectW_def k)
qed

lemma watermarkHeight_whole:
  assumes "20 dvd h \<or> 667 \<le> h" and "h \<le> 2 ^ 53"
  shows "watermarkHeight h = of_nat (rectH h)"
proof (cases "667 \<le> h")
  case True
  then have "(667 :: rat) \<le> of_nat h" by (metis of_nat_le_iff of_nat_numeral)
  then have "(667 :: rat) * (5404319552844595 / 36028797018963968)
      \<le> of_nat h * (5404319552844595 / 36028797018963968)"
    by (intro mult_right_mono) simp_all
  then have "(of_int 100 :: rat) \<le> of_nat h * (5404319552844595 / 36028797018963968)" by simp
  then have "of_int 100 \<le> fl (of_nat h * (5404319552844595 / 36028797018963968))"
    by (rule fl_ge) simp
  then show ?thesis using True by (simp add: watermarkHeight_def jsmul_def c015_value rectH_def)
next
  case False
  then have "20 dvd h" using assms(1) by simp
  then obtain k where k: "h = 20 * k" by (elim dvdE)
  have k33: "k \<le> 33" using False k by simp
  show ?thesis
  proof (cases "k = 0")
    case True
    then show ?thesis by (simp add: watermarkHeight_def jsmul_def k fl_zero rectH_def)
  next
    case False
    then have "int k \<in> set [1 .. 33]" using k33 by simp
    then have "fl (rat_of_int (20 * int k) * (5404319552844595 / 36028797018963968))
        = rat_of_int (3 * int k)"
      using height_multiples unfolding list_all_iff by blast
    then have "fl (of_nat h * (5404319552844595 / 36028797018963968)) = of_nat (3 * k)"
      by (simp add: k)
    moreover have "3 * k < 100" using k33 by simp
    ultimately show ?thesis using \<open>\<not> 667 \<le> h\<close>
      by (simp add: watermarkHeight_def jsmul_def c015_value rectH_def k)
  qed
qed

lemma rectH_le: "rectH h \<le> h"
  by (simp add: rectH_def) arith

lemma startX_whole:
  assumes "4 dvd w \<or> 600 \<le> w" and "w \<le> 2 ^ 53"
  shows "startX w = of_nat (rectLeft w)"
proof -
  have le: "rectW w \<le> w" by (simp add: rectW_def)
  have "rectLeft w \<le> 2 ^ 53" using assms(2) by (simp add: rectLeft_def)
  then have "fl (of_nat (rectLeft w)) = of_nat (rectLeft w)" by (rule fl_of_nat)
  moreover have "(of_nat w :: rat) - of_nat (rectW w) = of_nat (rectLeft w)"
    using le by (simp add: rectLeft_def of_nat_diff)
  ultimately show ?thesis
    by (simp add: startX_def jssub_def watermarkWidth_whole [OF assms])
qed

lemma startY_whole:
  assumes "20 dvd h \<or> 667 \<le> h" and "h \<le> 2 ^ 53"
  shows "startY h = of_nat (rectTop h)"
proof -
  have le: "rectH h \<le> h" by (rule rectH_le)
  have "rectTop h \<le> 2 ^ 53" using assms(2) by (simp add: rectTop_def)
  then have "fl (of_nat (rectTop h)) = of_nat (rectTop h)" by (rule fl_of_nat)
  moreover have "(of_nat h :: rat) - of_nat (rectH h) = of_nat (rectTop h)"
    using le by (simp add: rectTop_def of_nat_diff)
  ultimately show ?thesis
    by (simp add: startY_def jssub_def watermarkHeight_whole [OF assms])
qed

lemma fillRegion_whole:
  assumes wr: "whole_rect w h" and w1: "0 < w" and h1: "0 < h"
    and len: "length d = 4 * w * h" and big: "4 * w * h \<le> 2 ^ 53"
  shows "fillRegion w h d = Some (fill_pure w h d)"
proof -
  have "w \<le> w * h" "h \<le> w * h" using w1 h1 by simp_all
  moreover have "w * h \<le> 4 * w * h" by simp
  ultimately have wb: "w \<le> 2 ^ 53" and hb: "h \<le> 2 ^ 53" using big by linarith+
  have sx: "startX w = of_nat (rectLeft w)" using wr wb by (intro startX_whole) (simp_all add: whole_rect_def)
  have sy: "startY h = of_nat (rectTop h)" using wr hb by (intro startY_whole) (simp_all add: whole_rect_def)
  have L: "rectLeft w \<le> w" by (simp add: rectLeft_def)
  have T: "rectTop h \<le> h" by (simp add: rectTop_def)
  have "fillRegion w h d = Some (fold (\<lambda>y d'. fold (\<lambda>x d''.
        fill_pixel (of_nat w) (of_nat (rectTop h)) (of_nat y) (of_nat x) d'')
          [rectLeft w ..< w] d') [rectTop h ..< h] d)"
    unfolding fillRegion_def sx sy by (rule loop_y_run [OF wb hb L T])
  also have "\<dots> = Some (fold (\<lambda>p d'. fill_step w (rectTop h) d' p) (rect_pixels w h) d)"
    unfolding rect_pixels_def using big len by (subst rows_fold_step [where h = h]) simp_all
  also have "\<dots> = Some (fill_pure w h d)" using len by (simp only: fold_fill_step_pure)
  finally show ?thesis .
qed

section \<open>The region filler: the rectangle\<close>

lemma fl_quarters:
  assumes "n \<le> 2 ^ 53"
  shows "fl (of_nat n / 4) = of_nat n / 4"
proof -
  have "\<bar>int n\<bar> \<le> 2 ^ 53" using assms by simp
  then have "fl (of_int (int n) * 2 powi (- 2)) = of_int (int n) * 2 powi (- 2)" by (rule fl_exact)
  then show ?thesis by (simp add: power_int_minus_divide)
qed

lemma watermarkWidth_exact:
  assumes "w \<le> 2 ^ 53"
  shows "watermarkWidth w = min 150 (of_nat w / 4)"
  using fl_quarters [OF assms] by (simp add: watermarkWidth_def jsmul_def c025_value)

lemma startX_exact:
  assumes "w \<le> 2 ^ 32"
  shows "startX w = of_nat w - watermarkWidth w"
proof -
  have w53: "w \<le> 2 ^ 53" using assms by simp
  note ww = watermarkWidth_exact [OF w53]
  show ?thesis
  proof (cases "600 \<le> w")
    case True
    then have "(150::rat) \<le> of_nat w / 4" by simp
    then have e: "watermarkWidth w = 150" by (simp add: ww)
    have "fl (of_nat (w - 150)) = of_nat (w - 150)" using w53 by (intro fl_of_nat) simp
    moreover have "(of_nat (w - 150) :: rat) = of_nat w - 150" using True by (simp add: of_nat_diff)
    ultimately show ?thesis by (simp add: startX_def jssub_def e)
  next
    case False
    then have "(of_nat w / 4 :: rat) \<le> 150" by simp
    then have e: "watermarkWidth w = of_nat w / 4" by (simp add: ww)
    have "3 * w \<le> 2 ^ 53" using assms by simp
    then have "fl (of_nat (3 * w) / 4) = of_nat (3 * w) / 4" by (rule fl_quarters)
    moreover have "(of_nat (3 * w) / 4 :: rat) = of_nat w - of_nat w / 4" by simp
    ultimately show ?thesis by (simp add: startX_def jssub_def e)
  qed
qed

lemma min_lipschitz: "\<bar>min c a - min c b\<bar> \<le> \<bar>a - (b::rat)\<bar>"
  by (simp add: min_def abs_if)

lemma watermarkHeight_close:
  assumes "h \<le> 2 ^ 53"
  shows "\<bar>watermarkHeight h - min 100 (15 / 100 * of_nat h)\<bar> \<le> 1 / 2 ^ 45"
proof (cases "667 \<le> h")
  case True
  then have "(667 :: rat) \<le> of_nat h" by (metis of_nat_le_iff of_nat_numeral)
  then have "(100::rat) \<le> 15 / 100 * of_nat h" by simp
  then have "min 100 (15 / 100 * of_nat h :: rat) = 100" by simp
  moreover have "watermarkHeight h = 100"
    using watermarkHeight_whole [of h] True assms by (simp add: rectH_def)
  ultimately show ?thesis by simp
next
  case False
  show ?thesis
  proof (cases "h = 0")
    case True
    then show ?thesis by (simp add: watermarkHeight_def jsmul_def fl_zero)
  next
    case False
    define c :: rat where "c = 5404319552844595 / 36028797018963968"
    define x :: rat where "x = of_nat h * c"
    have "h \<le> 666" using \<open>\<not> 667 \<le> h\<close> by simp
    then have "(of_nat h :: rat) \<le> of_nat 666" by (simp only: of_nat_le_iff)
    then have h666: "(of_nat h :: rat) \<le> 666" by simp
    have hpos: "(0::rat) < of_nat h" using False by simp
    note hr = hpos h666
    have xpos: "0 < x" using hr by (simp add: x_def c_def)
    have "x \<le> 666 * c" unfolding x_def using hr by (intro mult_right_mono) (simp_all add: c_def)
    then have x255: "x \<le> 255" by (simp add: c_def)
    have e1: "\<bar>fl x - x\<bar> \<le> 1 / 2 ^ 46" using xpos x255 by (rule fl_error_small)
    have "15 / 100 * of_nat h - x = of_nat h * (15 / 100 - c)" by (simp add: x_def algebra_simps)
    also have "\<dots> \<le> 666 * (15 / 100 - c)" using hr by (intro mult_right_mono) (simp_all add: c_def)
    also have "\<dots> \<le> 1 / 2 ^ 46" by (simp add: c_def)
    finally have e2: "15 / 100 * of_nat h - x \<le> 1 / 2 ^ 46" .
    have "0 \<le> of_nat h * (15 / 100 - c)" using hr by (simp add: c_def)
    then have e3: "0 \<le> 15 / 100 * of_nat h - x" by (simp add: x_def algebra_simps)
    have "\<bar>fl x - 15 / 100 * of_nat h\<bar> \<le> 1 / 2 ^ 45" using e1 e2 e3 by (simp add: abs_if split: if_splits)
    moreover have "watermarkHeight h = min 100 (fl x)"
      by (simp add: watermarkHeight_def jsmul_def c015_value x_def c_def)
    ultimately show ?thesis using min_lipschitz [of 100 "fl x" "15 / 100 * of_nat h"] by linarith
  qed
qed

lemma c015_le_1: "fl (15 / 100) \<le> 1" and c015_ge_0: "0 \<le> fl (15 / 100)"
  by (simp_all add: c015_value)

text \<open>
  C3.  For every image (its sides are 32-bit unsigned numbers) the rectangle has the
  height \<open>min(100, 0.15 \<sqdot> H)\<close>, the product taken in double arithmetic, which is within
  \<open>2\<^sup>-\<^sup>4\<^sup>5\<close> of the real number; the width \<open>min(150, 0.25 \<sqdot> W)\<close>; the start
  \<open>(W - width, H - height)\<close>; neither side exceeds its bound, and the rectangle lies inside
  the image: the loops run from the start to \<open>W\<close> and \<open>H\<close>.
\<close>

theorem watermark_rectangle:
  assumes "w \<le> 2 ^ 32" and "h \<le> 2 ^ 32"
  shows "watermarkHeight h = min 100 (jsmul (of_nat h) (fl (15 / 100)))
    \<and> \<bar>watermarkHeight h - min 100 (15 / 100 * of_nat h)\<bar> \<le> 1 / 2 ^ 45
    \<and> watermarkWidth w = min 150 (25 / 100 * of_nat w)
    \<and> startX w = of_nat w - watermarkWidth w
    \<and> startY h = jssub (of_nat h) (watermarkHeight h)
    \<and> 0 \<le> watermarkWidth w \<and> watermarkWidth w \<le> 150
    \<and> 0 \<le> watermarkHeight h \<and> watermarkHeight h \<le> 100
    \<and> 0 \<le> startX w \<and> startX w \<le> of_nat w
    \<and> 0 \<le> startY h \<and> startY h \<le> of_nat h
    \<and> fillRegion w h d = loop_y (of_nat w) (of_nat h) (startX w) (startY h) (startY h) d"
proof -
  have w53: "w \<le> 2 ^ 53" and h53: "h \<le> 2 ^ 53" using assms by simp_all
  have ww: "watermarkWidth w = min 150 (of_nat w / 4)" using w53 by (rule watermarkWidth_exact)
  have sx: "startX w = of_nat w - watermarkWidth w" using assms(1) by (rule startX_exact)
  have close: "\<bar>watermarkHeight h - min 100 (15 / 100 * of_nat h)\<bar> \<le> 1 / 2 ^ 45"
    using h53 by (rule watermarkHeight_close)
  have flh: "fl (of_nat h) = of_nat h" using h53 by (rule fl_of_nat)
  have p0: "(0::rat) \<le> of_nat h * fl (15 / 100)" using c015_ge_0 by simp
  have "of_nat h * fl (15 / 100) \<le> (of_nat h :: rat) * 1"
    using c015_le_1 by (intro mult_left_mono) simp_all
  then have "fl (of_nat h * fl (15 / 100)) \<le> fl (of_nat h)" by (intro fl_mono) simp
  then have whh: "watermarkHeight h \<le> of_nat h" by (simp add: watermarkHeight_def jsmul_def flh)
  have wh0: "0 \<le> watermarkHeight h"
    using fl_nonneg [OF p0] by (simp add: watermarkHeight_def jsmul_def)
  have "0 \<le> fl (of_nat h - watermarkHeight h)" using whh by (intro fl_nonneg) simp
  then have sy0: "0 \<le> startY h" by (simp add: startY_def jssub_def)
  have "fl (of_nat h - watermarkHeight h) \<le> fl (of_nat h)" using wh0 by (intro fl_mono) simp
  then have syh: "startY h \<le> of_nat h" by (simp add: startY_def jssub_def flh)
  have ww0: "0 \<le> watermarkWidth w" "watermarkWidth w \<le> 150" "watermarkWidth w \<le> of_nat w"
    by (simp_all add: ww min_le_iff_disj)
  show ?thesis
    using ww sx close wh0 whh sy0 syh ww0
    by (simp add: watermarkHeight_def startY_def fillRegion_def)
qed

theorem watermark_rectangle_witness:
  "(200::nat) \<le> 2 ^ 32 \<and> watermarkHeight 200 = 30 \<and> watermarkWidth 200 = 50
   \<and> startX 200 = 150 \<and> startY 200 = 170"
proof -
  have a: "watermarkHeight 200 = 30" using watermarkHeight_whole [of 200] by (simp add: rectH_def)
  have b: "fl 170 = 170" by (simp add: fl_numeral)
  show ?thesis using watermark_rectangle [of 200 200] a b by (simp add: jssub_def)
qed

section \<open>The region filler: images whose rectangle has fractional coordinates\<close>

text \<open>
  The height and width of the rectangle are not rounded to whole pixels.  When the image
  height is below 667 and not a multiple of 20, or the width is below 600 and not a
  multiple of 4, the loop variables and the byte indices computed from them are not whole
  pixels.  Two such images are evaluated here.
\<close>

lemma fl_half: "numeral n \<le> (2::int) ^ 53 \<Longrightarrow> fl (numeral n / 2) = numeral n / 2"
  using fl_exact [of "numeral n" "- 1"] by (simp add: power_int_minus_divide)

lemma fl_quarter: "numeral n \<le> (2::int) ^ 53 \<Longrightarrow> fl (numeral n / 4) = numeral n / 4"
  using fl_exact [of "numeral n" "- 2"] by (simp add: power_int_minus_divide)

lemma rect_4_10: "startX 4 = 3" "startY 10 = 17 / 2"
  by code_simp+

lemma rhe_numeral: "rhe (numeral n) = numeral n"
  using rhe_of_int [of "numeral n"] by simp

lemma rhe_255_4: "rhe (255 / 4) = 64"
  using rhe_between [of 127 "255 / 4"] by simp

lemmas js_eval = jsadd_def jssub_def jsmul_def jsdiv_def fl_numeral fl_half fl_quarter fl_zero fl_one
  nan_add_def nan_div_def ta_get_def ta_set_def valid_index_def toUint8Clamp_def rhe_numeral
  rhe_255_4 sample_def sample_one_def fill_pixel_def Let_def

lemma px1: "fill_pixel 4 (17 / 2) (17 / 2) 3 img410 = img410[148 := 122, 149 := 123, 150 := 124, 151 := 255]"
  by (simp add: js_eval img410_def)


lemma px2: "fill_pixel 4 (17 / 2) (19 / 2) 3 (img410[148 := 122, 149 := 123, 150 := 124, 151 := 255])
   = img410[148 := 122, 149 := 123, 150 := 124, 151 := 255]"
  by (simp add: js_eval img410_def)

lemma row_4: "loop_x 4 sy y 3 d = Some (fill_pixel 4 sy y 3 d)"
  by (subst loop_x.simps, simp add: jsadd_def fl_numeral, subst loop_x.simps, simp)

lemma fill_4_10:
  "fillRegion 4 10 img410 = Some (img410[148 := 122, 149 := 123, 150 := 124, 151 := 255])"
proof -
  have "fillRegion 4 10 img410 = loop_y 4 10 3 (17 / 2) (17 / 2) img410"
    by (simp add: fillRegion_def rect_4_10)
  also have "\<dots> = loop_y 4 10 3 (17 / 2) (19 / 2)
      (img410[148 := 122, 149 := 123, 150 := 124, 151 := 255])"
    by (subst loop_y.simps) (simp add: row_4 px1 jsadd_def fl_half)
  also have "\<dots> = loop_y 4 10 3 (17 / 2) (21 / 2)
      (img410[148 := 122, 149 := 123, 150 := 124, 151 := 255])"
    by (subst loop_y.simps) (simp add: row_4 px2 jsadd_def fl_half)
  also have "\<dots> = Some (img410[148 := 122, 149 := 123, 150 := 124, 151 := 255])"
    by (subst loop_y.simps) simp
  finally show ?thesis .
qed

lemma rect_6_20: "startX 6 = 9 / 2" "startY 20 = 17"
  by code_simp+

lemma row_6: "loop_x 6 sy y (9 / 2) d = Some (fill_pixel 6 sy y (11 / 2) (fill_pixel 6 sy y (9 / 2) d))"
  by (subst loop_x.simps, simp add: jsadd_def fl_half, subst loop_x.simps, simp add: jsadd_def fl_half,
      subst loop_x.simps, simp)

lemma fill_6_20_rows:
  "fillRegion 6 20 d =
     Some (fill_pixel 6 17 19 (11 / 2) (fill_pixel 6 17 19 (9 / 2)
          (fill_pixel 6 17 18 (11 / 2) (fill_pixel 6 17 18 (9 / 2)
          (fill_pixel 6 17 17 (11 / 2) (fill_pixel 6 17 17 (9 / 2) d))))))"
proof -
  have "fillRegion 6 20 d = loop_y 6 20 (9 / 2) 17 17 d"
    by (simp add: fillRegion_def rect_6_20)
  also have "\<dots> = loop_y 6 20 (9 / 2) 17 18
      (fill_pixel 6 17 17 (11 / 2) (fill_pixel 6 17 17 (9 / 2) d))"
    by (subst loop_y.simps) (simp add: row_6 jsadd_def fl_numeral)
  also have "\<dots> = loop_y 6 20 (9 / 2) 17 19
      (fill_pixel 6 17 18 (11 / 2) (fill_pixel 6 17 18 (9 / 2)
      (fill_pixel 6 17 17 (11 / 2) (fill_pixel 6 17 17 (9 / 2) d))))"
    by (subst loop_y.simps) (simp add: row_6 jsadd_def fl_numeral)
  also have "\<dots> = loop_y 6 20 (9 / 2) 17 20
      (fill_pixel 6 17 19 (11 / 2) (fill_pixel 6 17 19 (9 / 2)
      (fill_pixel 6 17 18 (11 / 2) (fill_pixel 6 17 18 (9 / 2)
      (fill_pixel 6 17 17 (11 / 2) (fill_pixel 6 17 17 (9 / 2) d))))))"
    by (subst loop_y.simps) (simp add: row_6 jsadd_def fl_numeral)
  also have "\<dots> = Some (fill_pixel 6 17 19 (11 / 2) (fill_pixel 6 17 19 (9 / 2)
      (fill_pixel 6 17 18 (11 / 2) (fill_pixel 6 17 18 (9 / 2)
      (fill_pixel 6 17 17 (11 / 2) (fill_pixel 6 17 17 (9 / 2) d))))))"
    by (subst loop_y.simps) simp
  finally show ?thesis .
qed

lemma fill_A: "map_option (\<lambda>out. out ! 432) (fillRegion 6 20 imgA) = Some 0"
  by (simp add: fill_6_20_rows js_eval imgA_def)

lemma fill_B: "map_option (\<lambda>out. out ! 432) (fillRegion 6 20 imgB) = Some 64"
  by (simp add: fill_6_20_rows js_eval imgB_def)

text \<open>
  C1.  The claim says that only pixels inside the rectangle are modified.  For the
  4 \<times> 10 image the rectangle starts at \<open>x = 3\<close>, \<open>y = 8.5\<close>, and the filler overwrites the
  bytes 148 to 151: the pixel \<open>(1, 9)\<close>, left of the rectangle.
\<close>

theorem fillRegion_4_10_writes_outside:
  "startX 4 = 3 \<and> startY 10 = 17 / 2
   \<and> fillRegion 4 10 img410 = Some (img410[148 := 122, 149 := 123, 150 := 124, 151 := 255])
   \<and> (148::nat) = 4 * (9 * 4 + 1) \<and> img410 ! 148 = 148"
proof -
  have a: "img410 ! 148 = 148" by (simp add: img410_def)
  have b: "(148::nat) = 4 * (9 * 4 + 1)" by simp
  show ?thesis by (intro conjI) (rule rect_4_10 fill_4_10 a b)+
qed

theorem fillRegion_4_10_writes_outside_witness:
  "\<exists>out. fillRegion 4 10 img410 = Some out \<and> out ! 148 \<noteq> img410 ! 148"
proof -
  have a: "(img410[148 := 122, 149 := 123, 150 := 124, 151 := 255]) ! 148 \<noteq> img410 ! 148"
    by (simp add: img410_def)
  have "fillRegion 4 10 img410 = Some (img410[148 := 122, 149 := 123, 150 := 124, 151 := 255])"
    using fillRegion_4_10_writes_outside by (elim conjE)
  with a show ?thesis by (intro exI conjI)
qed

text \<open>
  C4.  The claim says that every pixel inside the rectangle has alpha 255 afterwards.  For
  the same image the pixel \<open>(3, 9)\<close> is inside the rectangle and keeps its alpha 159.
\<close>

theorem fillRegion_4_10_alpha_kept:
  "startX 4 \<le> 3 \<and> (3::rat) < 4 \<and> startY 10 \<le> 9 \<and> (9::rat) < 10
   \<and> map_option (\<lambda>out. out ! (4 * (9 * 4 + 3) + 3)) (fillRegion 4 10 img410) = Some 159"
proof -
  have a: "(img410[148 := 122, 149 := 123, 150 := 124, 151 := 255]) ! 159 = 159"
    by (simp add: img410_def)
  have b: "(4 * (9 * 4 + 3) + 3 :: nat) = 159" by simp
  have c: "map_option (\<lambda>out. out ! (4 * (9 * 4 + 3) + 3)) (fillRegion 4 10 img410) = Some 159"
    by (simp only: fill_4_10 option.map b a)
  have d: "startX 4 \<le> 3" unfolding rect_4_10 by simp
  have e: "startY 10 \<le> 9" unfolding rect_4_10 by simp
  have f: "(3::rat) < 4" "(9::rat) < 10" by simp_all
  show ?thesis by (intro conjI) (rule c d e f)+
qed

theorem fillRegion_4_10_alpha_kept_witness:
  "\<exists>out. fillRegion 4 10 img410 = Some out \<and> out ! 159 \<noteq> 255"
proof -
  have "map_option (\<lambda>out. out ! (4 * (9 * 4 + 3) + 3)) (fillRegion 4 10 img410) = Some 159"
    using fillRegion_4_10_alpha_kept by (elim conjE)
  then obtain out where o: "fillRegion 4 10 img410 = Some out"
    and "out ! (4 * (9 * 4 + 3) + 3) = 159"
    by (cases "fillRegion 4 10 img410") simp_all
  then have "out ! 159 = 159" by simp
  then have "out ! 159 \<noteq> 255" by simp
  with o show ?thesis by (intro exI conjI)
qed

text \<open>
  C10.  The claim says that samples are read only from rows strictly above the top of the
  rectangle, so that the result depends on the input alone.  For a 6 \<times> 20 image the
  rectangle starts at \<open>x = 4.5\<close>, \<open>y = 17\<close>; two inputs that differ only in byte 408, a byte
  of row 17, give different values of byte 432.
\<close>

theorem fillRegion_6_20_reads_rectangle_row:
  "startY 20 = 17 \<and> (408::nat) = 4 * (17 * 6 + 0) \<and> imgB = imgA[408 := 255]
   \<and> map_option (\<lambda>out. out ! 432) (fillRegion 6 20 imgA) = Some 0
   \<and> map_option (\<lambda>out. out ! 432) (fillRegion 6 20 imgB) = Some 64"
proof -
  have a: "imgB = imgA[408 := 255]" by (simp only: imgA_def imgB_def)
  have b: "(408::nat) = 4 * (17 * 6 + 0)" by simp
  show ?thesis by (intro conjI) (rule a b fill_A fill_B rect_6_20)+
qed

theorem fillRegion_6_20_reads_rectangle_row_witness:
  "map_option (\<lambda>out. out ! 432) (fillRegion 6 20 imgA)
   \<noteq> map_option (\<lambda>out. out ! 432) (fillRegion 6 20 imgB)"
proof -
  have a: "map_option (\<lambda>out. out ! 432) (fillRegion 6 20 imgA) = Some 0"
    using fillRegion_6_20_reads_rectangle_row by (elim conjE)
  have b: "map_option (\<lambda>out. out ! 432) (fillRegion 6 20 imgB) = Some 64"
    using fillRegion_6_20_reads_rectangle_row by (elim conjE)
  show ?thesis by (simp only: a b) simp
qed

text \<open>The bytes of a pixel in the pure filler.\<close>

lemma pixel_in_buffer:
  fixes x y w h c :: nat
  assumes "x < w" and "y < h" and "c < 4"
  shows "4 * (y * w + x) + c < 4 * w * h"
proof -
  have "y * w + x < y * w + w" using assms(1) by simp
  also have "\<dots> = (Suc y) * w" by simp
  also have "\<dots> \<le> h * w" using assms(2) by (intro mult_le_mono1) simp
  finally have "y * w + x < w * h" by (simp add: mult.commute)
  then have "4 * (y * w + x) + 4 \<le> 4 * (w * h)" by simp
  then show ?thesis using assms(3) by simp
qed

lemma divmod4:
  fixes n c :: nat
  assumes "c < 4"
  shows "(4 * n + c) div 4 = n" and "(4 * n + c) mod 4 = c"
  using assms by simp_all

lemma fill_pure_byte:
  assumes "x < w" and "y < h" and "c < 4" and "length d = 4 * w * h"
  shows "fill_pure w h d ! (4 * (y * w + x) + c) =
     (if in_rect w h x y \<and> neighbours w (rectTop h) x y \<noteq> []
      then (if c = 3 then 255 else mean_byte d w (neighbours w (rectTop h) x y) c)
      else d ! (4 * (y * w + x) + c))"
proof -
  let ?i = "4 * (y * w + x) + c"
  have lt: "?i < length d" using assms by (simp only: pixel_in_buffer)
  have q: "?i div 4 = y * w + x" using assms(3) by (rule divmod4)
  have r: "?i mod 4 = c" using assms(3) by (rule divmod4)
  have xx: "(y * w + x) mod w = x" using assms(1) by simp
  have yy: "(y * w + x) div w = y" using assms(1) by simp
  have "fill_pure w h d ! ?i = filled_byte d w h ?i"
    using lt by (simp add: fill_pure_def)
  also have "\<dots> = (if in_rect w h x y \<and> neighbours w (rectTop h) x y \<noteq> []
      then (if c = 3 then 255 else mean_byte d w (neighbours w (rectTop h) x y) c)
      else d ! ?i)"
    by (simp only: filled_byte_def Let_def q r xx yy)
  finally show ?thesis .
qed

lemma rhe_3_4: "rhe (3 / 4) = 1"
  using rhe_between [of 1 "3 / 4"] by simp

lemma neighbours_3_17: "neighbours 4 17 3 17 = [(15, 2), (15, 3), (16, 2), (16, 3)]"
  by (simp add: neighbours_def sourceRow_def in_clean_def)

lemma rect_4_20: "rectTop 20 = 17" "rectLeft 4 = 3" "in_rect 4 20 3 17" "whole_rect 4 20"
  by (simp_all add: rectTop_def rectLeft_def rectH_def rectW_def in_rect_def whole_rect_def)

lemma channel_imgC:
  "channel imgC 4 0 (15, 2) = 3" "channel imgC 4 0 (15, 3) = 0"
  "channel imgC 4 0 (16, 2) = 0" "channel imgC 4 0 (16, 3) = 0"
  by (simp_all add: channel_def imgC_def)

lemma channels_imgC:
  "map (channel imgC 4 0) [(15, 2), (15, 3), (16, 2), (16, 3)] = [3, 0, 0, 0]"
  by (simp add: channel_imgC)

lemma mean_imgC: "mean_byte imgC 4 [(15, 2), (15, 3), (16, 2), (16, 3)] 0 = 1"
  by (simp add: mean_byte_def channel_imgC toUint8Clamp_def rhe_3_4)

lemma length_imgC: "length imgC = 4 * 4 * 20"
  by (simp add: imgC_def)

text \<open>
  C2.  The claim says that the mean written to a pixel is truncated to an integer.  In the
  4 \<times> 20 image whose only non-zero byte is the red byte 3 of the pixel \<open>(2, 15)\<close>, the pixel
  \<open>(3, 17)\<close> of the rectangle has four neighbours, whose red mean is \<open>3 / 4\<close>: the byte
  stored is 1, and the truncated mean is 0.
\<close>

theorem fillRegion_4_20_rounds_counterexample:
  "startX 4 = 3 \<and> startY 20 = 17
   \<and> neighbours 4 17 3 17 = [(15, 2), (15, 3), (16, 2), (16, 3)]
   \<and> map (channel imgC 4 0) (neighbours 4 17 3 17) = [3, 0, 0, 0]
   \<and> (3 + 0 + 0 + 0) div (4::nat) = 0
   \<and> map_option (\<lambda>out. out ! (4 * (17 * 4 + 3))) (fillRegion 4 20 imgC) = Some 1"
proof -
  have a: "startX 4 = 3" using startX_whole [of 4] by (simp add: rect_4_20)
  have b: "startY 20 = 17" using startY_whole [of 20] by (simp add: rect_4_20)
  have c: "map (channel imgC 4 0) (neighbours 4 17 3 17) = [3, 0, 0, 0]"
    by (simp only: neighbours_3_17 channels_imgC)
  have d: "(3 + 0 + 0 + 0) div (4::nat) = 0" by simp
  have "fillRegion 4 20 imgC = Some (fill_pure 4 20 imgC)"
    by (rule fillRegion_whole) (simp_all add: rect_4_20 length_imgC)
  moreover have "fill_pure 4 20 imgC ! (4 * (17 * 4 + 3) + 0) = 1"
    by (subst fill_pure_byte) (simp_all add: length_imgC rect_4_20 neighbours_3_17 mean_imgC)
  ultimately have e: "map_option (\<lambda>out. out ! (4 * (17 * 4 + 3))) (fillRegion 4 20 imgC) = Some 1"
    by simp
  show ?thesis by (intro conjI) (rule a b c d e neighbours_3_17)+
qed

text \<open>
  C2, amended.  When the rectangle has whole-pixel coordinates (the height is a multiple of
  20 or at least 667, the width a multiple of 4 or at least 600), the filler returns a
  buffer of the same length in which every pixel \<open>(x, y)\<close> of the rectangle with at least
  one qualifying neighbour of \<open>(sourceRow, x)\<close> holds, in each colour channel, the mean of
  that channel over the qualifying neighbours in the input, rounded to the nearest
  integer with ties to even, and alpha 255; every other pixel holds its input bytes.
\<close>

theorem fillRegion_pixel_rule:
  assumes "whole_rect w h" and "0 < w" and "0 < h"
    and "length d = 4 * w * h" and "4 * w * h \<le> 2 ^ 53"
    and "x < w" and "y < h"
  shows "startX w = of_nat (rectLeft w) \<and> startY h = of_nat (rectTop h) \<and>
    (\<exists>out. fillRegion w h d = Some out \<and> length out = length d \<and>
       (let ns = neighbours w (rectTop h) x y; i = 4 * (y * w + x)
        in if in_rect w h x y \<and> ns \<noteq> []
           then out ! i = mean_byte d w ns 0 \<and> out ! (i + 1) = mean_byte d w ns 1
              \<and> out ! (i + 2) = mean_byte d w ns 2 \<and> out ! (i + 3) = 255
           else out ! i = d ! i \<and> out ! (i + 1) = d ! (i + 1)
              \<and> out ! (i + 2) = d ! (i + 2) \<and> out ! (i + 3) = d ! (i + 3)))"
proof -
  have "w \<le> w * h" "h \<le> w * h" using assms(2,3) by simp_all
  moreover have "w * h \<le> 4 * w * h" by simp
  ultimately have wb: "w \<le> 2 ^ 53" and hb: "h \<le> 2 ^ 53" using assms(5) by linarith+
  have sx: "startX w = of_nat (rectLeft w)"
    using assms(1) wb by (intro startX_whole) (simp_all add: whole_rect_def)
  have sy: "startY h = of_nat (rectTop h)"
    using assms(1) hb by (intro startY_whole) (simp_all add: whole_rect_def)
  have run: "fillRegion w h d = Some (fill_pure w h d)"
    using assms(1-5) by (rule fillRegion_whole)
  have len: "length (fill_pure w h d) = length d" by (simp add: fill_pure_def)
  have b0: "fill_pure w h d ! (4 * (y * w + x)) =
     (if in_rect w h x y \<and> neighbours w (rectTop h) x y \<noteq> []
      then mean_byte d w (neighbours w (rectTop h) x y) 0 else d ! (4 * (y * w + x)))"
    using fill_pure_byte [OF assms(6,7) _ assms(4), of 0] by simp
  have b1: "fill_pure w h d ! (4 * (y * w + x) + 1) =
     (if in_rect w h x y \<and> neighbours w (rectTop h) x y \<noteq> []
      then mean_byte d w (neighbours w (rectTop h) x y) 1 else d ! (4 * (y * w + x) + 1))"
    using fill_pure_byte [OF assms(6,7) _ assms(4), of 1] by simp
  have b2: "fill_pure w h d ! (4 * (y * w + x) + 2) =
     (if in_rect w h x y \<and> neighbours w (rectTop h) x y \<noteq> []
      then mean_byte d w (neighbours w (rectTop h) x y) 2 else d ! (4 * (y * w + x) + 2))"
    using fill_pure_byte [OF assms(6,7) _ assms(4), of 2] by simp
  have b3: "fill_pure w h d ! (4 * (y * w + x) + 3) =
     (if in_rect w h x y \<and> neighbours w (rectTop h) x y \<noteq> []
      then 255 else d ! (4 * (y * w + x) + 3))"
    using fill_pure_byte [OF assms(6,7) _ assms(4), of 3] by simp
  have px: "let ns = neighbours w (rectTop h) x y; i = 4 * (y * w + x)
        in if in_rect w h x y \<and> ns \<noteq> []
           then fill_pure w h d ! i = mean_byte d w ns 0
              \<and> fill_pure w h d ! (i + 1) = mean_byte d w ns 1
              \<and> fill_pure w h d ! (i + 2) = mean_byte d w ns 2
              \<and> fill_pure w h d ! (i + 3) = 255
           else fill_pure w h d ! i = d ! i \<and> fill_pure w h d ! (i + 1) = d ! (i + 1)
              \<and> fill_pure w h d ! (i + 2) = d ! (i + 2)
              \<and> fill_pure w h d ! (i + 3) = d ! (i + 3)"
    unfolding Let_def using b0 b1 b2 b3 by simp
  from run len px have "\<exists>out. fillRegion w h d = Some out \<and> length out = length d \<and>
       (let ns = neighbours w (rectTop h) x y; i = 4 * (y * w + x)
        in if in_rect w h x y \<and> ns \<noteq> []
           then out ! i = mean_byte d w ns 0 \<and> out ! (i + 1) = mean_byte d w ns 1
              \<and> out ! (i + 2) = mean_byte d w ns 2 \<and> out ! (i + 3) = 255
           else out ! i = d ! i \<and> out ! (i + 1) = d ! (i + 1)
              \<and> out ! (i + 2) = d ! (i + 2) \<and> out ! (i + 3) = d ! (i + 3))"
    by (intro exI [of _ "fill_pure w h d"] conjI)
  with sx sy show ?thesis by (intro conjI)
qed

theorem fillRegion_pixel_rule_witness:
  "whole_rect 4 20 \<and> length imgC = 4 * 4 * 20 \<and> in_rect 4 20 3 17
   \<and> (\<exists>out. fillRegion 4 20 imgC = Some out \<and> length out = 320
        \<and> out ! 284 = 1 \<and> out ! 285 = 0 \<and> out ! 286 = 0 \<and> out ! 287 = 255)"
proof -
  have m1: "mean_byte imgC 4 [(15, 2), (15, 3), (16, 2), (16, 3)] (Suc 0) = 0"
    by (simp add: mean_byte_def channel_def imgC_def toUint8Clamp_def)
  have m2: "mean_byte imgC 4 [(15, 2), (15, 3), (16, 2), (16, 3)] 2 = 0"
    by (simp add: mean_byte_def channel_def imgC_def toUint8Clamp_def)
  have "\<exists>out. fillRegion 4 20 imgC = Some out \<and> length out = 320
        \<and> out ! 284 = 1 \<and> out ! 285 = 0 \<and> out ! 286 = 0 \<and> out ! 287 = 255"
    using fillRegion_pixel_rule [of 4 20 imgC 3 17]
    by (simp add: rect_4_20 length_imgC neighbours_3_17 mean_imgC m1 m2 Let_def)
  then show ?thesis using rect_4_20(3,4) length_imgC by (intro conjI)
qed

end
